theory Spec2Isabelle
  imports Main "HOL-Library.Word" "HOL-Library.Log_Nat"
begin

unbundle bit_operations_syntax

section \<open>Memory, block headers and the heap extender\<close>

text \<open>
  The allocator (mm.c, segregated-list variant) works on a byte-addressed heap with 64-bit
  pointers. Every access of the program is to an 8-byte slot: a header or footer
  (\<open>header_t\<close>: bit 0 is \<open>allocated\<close>, bits 1..31 are \<open>block_size\<close>, bits 32..63 are the
  unused field \<open>_\<close>, as the comment at the top of mm.c draws it), a \<open>next\<close> or \<open>prev\<close>
  pointer of a free block (offsets 8 and 16 of \<open>block_t\<close>) or an entry of the
  \<open>segListHead\<close> array. Memory is therefore a map from byte addresses to 64-bit slots;
  all addresses the program forms are multiples of 8 as long as the extender returns
  8-aligned addresses.
\<close>

type_synonym addr = "64 word"
type_synonym memory = "addr \<Rightarrow> 64 word"

definition NULL :: addr where
  "NULL = 0"

text \<open>The value \<open>(void * )-1\<close> by which \<open>mem_sbrk\<close> signals failure.\<close>

definition SBRK_FAILED :: addr where
  "SBRK_FAILED = - 1"

record state =
  mem :: memory
  segListHead :: addr
  prologue :: addr
  mem_brk :: addr
  mem_grant :: "addr \<Rightarrow> nat \<Rightarrow> bool"

definition CHUNKSIZE :: nat where
  "CHUNKSIZE = 2 ^ 16"

definition HEADER_SIZE :: nat where
  "HEADER_SIZE = 8"

definition OVERHEAD :: nat where
  "OVERHEAD = HEADER_SIZE + HEADER_SIZE"

definition MIN_BLOCK_SIZE :: nat where
  "MIN_BLOCK_SIZE = 32"

definition TOTALNUMLIST :: int where
  "TOTALNUMLIST = 11"

subsection \<open>The bit-fields of a header slot\<close>

definition slot_allocated :: "64 word \<Rightarrow> bool" where
  "slot_allocated w = bit w 0"

definition slot_block_size :: "64 word \<Rightarrow> nat" where
  "slot_block_size w = unat (take_bit 31 (drop_bit 1 w))"

definition slot_set_allocated :: "bool \<Rightarrow> 64 word \<Rightarrow> 64 word" where
  "slot_set_allocated v w = (if v then set_bit 0 w else unset_bit 0 w)"

text \<open>A store to the 31-bit field keeps the low 31 bits of the value stored.\<close>

definition slot_set_block_size :: "nat \<Rightarrow> 64 word \<Rightarrow> 64 word" where
  "slot_set_block_size n w =
     (w AND NOT (push_bit 1 (mask 31))) OR push_bit 1 (take_bit 31 (word_of_nat n))"

definition allocated :: "state \<Rightarrow> addr \<Rightarrow> bool" where
  "allocated s a = slot_allocated (mem s a)"

definition block_size :: "state \<Rightarrow> addr \<Rightarrow> nat" where
  "block_size s a = slot_block_size (mem s a)"

definition store :: "state \<Rightarrow> addr \<Rightarrow> 64 word \<Rightarrow> state" where
  "store s a v = s\<lparr>mem := (mem s)(a := v)\<rparr>"

definition set_allocated :: "state \<Rightarrow> addr \<Rightarrow> bool \<Rightarrow> state" where
  "set_allocated s a v = store s a (slot_set_allocated v (mem s a))"

definition set_block_size :: "state \<Rightarrow> addr \<Rightarrow> nat \<Rightarrow> state" where
  "set_block_size s a n = store s a (slot_set_block_size n (mem s a))"

subsection \<open>The links of a free block and the list heads\<close>

definition body_next :: "state \<Rightarrow> addr \<Rightarrow> addr" where
  "body_next s b = mem s (b + 8)"

definition body_prev :: "state \<Rightarrow> addr \<Rightarrow> addr" where
  "body_prev s b = mem s (b + 16)"

definition set_next :: "state \<Rightarrow> addr \<Rightarrow> addr \<Rightarrow> state" where
  "set_next s b p = store s (b + 8) p"

definition set_prev :: "state \<Rightarrow> addr \<Rightarrow> addr \<Rightarrow> state" where
  "set_prev s b p = store s (b + 16) p"

text \<open>\<open>body.payload\<close> starts right after the header.\<close>

definition payload :: "addr \<Rightarrow> addr" where
  "payload b = b + 8"

text \<open>The address of \<open>segListHead[index]\<close>; \<open>index\<close> is a C \<open>int\<close>.\<close>

definition head_slot :: "state \<Rightarrow> int \<Rightarrow> addr" where
  "head_slot s i = segListHead s + 8 * word_of_int i"

definition head :: "state \<Rightarrow> int \<Rightarrow> addr" where
  "head s i = mem s (head_slot s i)"

definition set_head :: "state \<Rightarrow> int \<Rightarrow> addr \<Rightarrow> state" where
  "set_head s i p = store s (head_slot s i) p"

subsection \<open>The heap extender\<close>

text \<open>
  Modelled from the spec: \<open>mem_sbrk\<close> of memlib.c, which is not among the sources. It
  "grows the managed region by exactly n bytes and returns the base of the new region
  (contiguous with previous), or signals failure"; failure is the pointer \<open>(void * )-1\<close>
  that mm.c compares with, and leaves the region as it was. When the extender refuses is
  its own business: the field \<open>mem_grant\<close> of the state decides it from the current
  break and the request.
\<close>

definition mem_sbrk :: "state \<Rightarrow> nat \<Rightarrow> addr \<times> state" where
  "mem_sbrk s n =
     (if mem_grant s (mem_brk s) n
      then (mem_brk s, s\<lparr>mem_brk := mem_brk s + word_of_nat n\<rparr>)
      else (SBRK_FAILED, s))"

section \<open>The size-class function\<close>

text \<open>
  Modelled from the compiler's documentation: \<open>__builtin_clz\<close> counts the zero bits of a
  32-bit value above its most significant one bit. Its result for 0 is undefined in C; the
  count here is 32 for it.
\<close>

fun clz_from :: "nat \<Rightarrow> 32 word \<Rightarrow> nat" where
  "clz_from 0 w = 0"
| "clz_from (Suc n) w = (if bit w n then 0 else Suc (clz_from n w))"

definition builtin_clz :: "32 word \<Rightarrow> nat" where
  "builtin_clz w = clz_from 32 w"

definition logBaseTwo :: "32 word \<Rightarrow> int" where
  "logBaseTwo input = 31 - int (builtin_clz input)"

definition segListIndex :: "32 word \<Rightarrow> int" where
  "segListIndex input =
     (let index = logBaseTwo input - 5
      in if index < TOTALNUMLIST - 1 then index else TOTALNUMLIST - 1)"

text \<open>The class of a block size read from a header (a 31-bit value passed as \<open>int\<close>).\<close>

definition size_index :: "nat \<Rightarrow> int" where
  "size_index n = segListIndex (word_of_nat n)"

section \<open>The free lists\<close>

definition list_push :: "state \<Rightarrow> addr \<Rightarrow> int \<Rightarrow> state" where
  "list_push s newblock index =
     (if head s index = NULL then
        (let s1 = set_head s index newblock;
             s2 = set_prev s1 newblock NULL
         in set_next s2 newblock NULL)
      else
        (let s1 = set_next s newblock (head s index);
             s2 = set_prev s1 newblock NULL;
             s3 = set_prev s2 (head s2 index) newblock
         in set_head s3 index newblock))"

definition list_pop :: "state \<Rightarrow> addr \<Rightarrow> int \<Rightarrow> state" where
  "list_pop s removeblock index =
     (if body_prev s removeblock = NULL \<and> body_next s removeblock = NULL then
        set_head s index NULL
      else if head s index = removeblock then
        (let s1 = set_head s index (body_next s removeblock)
         in set_prev s1 (body_next s1 removeblock) NULL)
      else if body_next s removeblock = NULL then
        set_next s (body_prev s removeblock) NULL
      else
        (let s1 = set_prev s (body_next s removeblock) (body_prev s removeblock)
         in set_next s1 (body_prev s1 removeblock) (body_next s1 removeblock)))"

section \<open>Boundary tags and coalescing\<close>

definition get_footer :: "state \<Rightarrow> addr \<Rightarrow> addr" where
  "get_footer s block = block + word_of_nat (block_size s block) - 8"

definition coalesce :: "state \<Rightarrow> addr \<Rightarrow> addr \<times> state" where
  "coalesce s block =
     (let prev_footer = block - 8;
          next_header = block + word_of_nat (block_size s block);
          prev_alloc = allocated s prev_footer;
          next_alloc = allocated s next_header;
          next_block = next_header;
          prev_block = prev_footer - word_of_nat (block_size s prev_footer) + 8
      in
      if prev_alloc \<and> next_alloc then (block, s)
      else if prev_alloc \<and> \<not> next_alloc then
        (let s1 = list_pop s block (size_index (block_size s block));
             s2 = list_pop s1 next_block (size_index (block_size s1 next_block));
             s3 = set_block_size s2 block (block_size s2 block + block_size s2 next_header);
             s4 = set_block_size s3 (get_footer s3 block) (block_size s3 block);
             s5 = list_push s4 block (size_index (block_size s4 block))
         in (block, s5))
      else if \<not> prev_alloc \<and> next_alloc then
        (let s1 = list_pop s block (size_index (block_size s block));
             s2 = list_pop s1 prev_block (size_index (block_size s1 prev_block));
             s3 = set_block_size s2 prev_block (block_size s2 prev_block + block_size s2 block);
             s4 = set_block_size s3 (get_footer s3 prev_block) (block_size s3 prev_block);
             s5 = list_push s4 prev_block (size_index (block_size s4 prev_block))
         in (prev_block, s5))
      else
        (let s1 = list_pop s prev_block (size_index (block_size s prev_block));
             s2 = list_pop s1 block (size_index (block_size s1 block));
             s3 = list_pop s2 next_block (size_index (block_size s2 next_block));
             prev_block' = prev_footer - word_of_nat (block_size s3 prev_footer) + 8;
             s4 = set_block_size s3 prev_block'
                    (block_size s3 prev_block' + (block_size s3 block + block_size s3 next_header));
             s5 = set_block_size s4 (get_footer s4 prev_block') (block_size s4 prev_block');
             s6 = list_push s5 prev_block' (size_index (block_size s5 prev_block'))
         in (prev_block', s6)))"

section \<open>Growing the heap\<close>

text \<open>
  \<open>words\<close> is a \<open>size_t\<close>; \<open>size = words << 3\<close> is stored in a \<open>uint32_t\<close>. The result is
  the new free block, or \<open>NULL\<close> with the state unchanged.
\<close>

definition extend_heap :: "state \<Rightarrow> 64 word \<Rightarrow> bool \<Rightarrow> addr \<times> state" where
  "extend_heap s words willCoalesce =
     (let bsize = (ucast (push_bit 3 words :: 64 word) :: 32 word) in
      if bsize = 0 then (NULL, s)
      else
        (let (r, s0) = mem_sbrk s (unat bsize) in
         if r = SBRK_FAILED then (NULL, s0)
         else
           (let block = r - 8;
                s1 = set_allocated s0 block False;
                s2 = set_block_size s1 block (unat bsize);
                block_footer = get_footer s2 block;
                s3 = set_allocated s2 block_footer False;
                s4 = set_block_size s3 block_footer (block_size s3 block);
                new_epilogue = block_footer + 8;
                s5 = set_allocated s4 new_epilogue True;
                s6 = set_block_size s5 new_epilogue 0;
                s7 = list_push s6 block (size_index (block_size s6 block))
            in if willCoalesce then coalesce s7 block else (block, s7))))"

section \<open>Placement and search\<close>

text \<open>
  \<open>asize\<close> is a \<open>size_t\<close>, so \<open>split_size = block->block_size - asize\<close> is computed in
  64 bits without sign and compared so.
\<close>

definition place :: "state \<Rightarrow> addr \<Rightarrow> 64 word \<Rightarrow> state" where
  "place s block asize =
     (let split_size = (word_of_nat (block_size s block) :: 64 word) - asize in
      if 32 \<le> split_size then
        (let s1 = list_pop s block (size_index (block_size s block));
             s2 = set_block_size s1 block (unat asize);
             s3 = set_allocated s2 block True;
             footer = get_footer s3 block;
             s4 = set_block_size s3 footer (unat asize);
             s5 = set_allocated s4 footer True;
             new_block = block + word_of_nat (block_size s5 block);
             s6 = set_block_size s5 new_block (unat split_size);
             s7 = set_allocated s6 new_block False;
             new_footer = get_footer s7 new_block;
             s8 = set_block_size s7 new_footer (unat split_size);
             s9 = set_allocated s8 new_footer False
         in list_push s9 new_block (size_index (block_size s9 new_block)))
      else
        (let s1 = list_pop s block (size_index (block_size s block));
             s2 = set_allocated s1 block True
         in set_allocated s2 (get_footer s2 block) True))"

text \<open>
  The inner loop of \<open>find_fit\<close> follows \<open>next\<close> pointers until \<open>NULL\<close>; on a cyclic list
  it never ends, which is the value \<open>None\<close>.
\<close>

partial_function (option) find_in_list :: "state \<Rightarrow> addr \<Rightarrow> 64 word \<Rightarrow> addr option" where
  "find_in_list s b asize =
     (if b = NULL then Some NULL
      else if \<not> allocated s b \<and> asize \<le> word_of_nat (block_size s b) then Some b
      else find_in_list s (body_next s b) asize)"

declare find_in_list.simps [code]

function find_from :: "state \<Rightarrow> int \<Rightarrow> 64 word \<Rightarrow> addr option" where
  "find_from s i asize =
     (if i < TOTALNUMLIST then
        (case find_in_list s (head s i) asize of
           None \<Rightarrow> None
         | Some b \<Rightarrow> if b \<noteq> NULL then Some b else find_from s (i + 1) asize)
      else Some NULL)"
  by pat_completeness auto
termination
  by (relation "measure (\<lambda>(s, i, asize). nat (TOTALNUMLIST - i))") auto

text \<open>The argument of \<open>segListIndex\<close> is an \<open>int\<close>: the low 32 bits of \<open>asize\<close>.\<close>

definition find_fit :: "state \<Rightarrow> 64 word \<Rightarrow> addr option" where
  "find_fit s asize = find_from s (segListIndex (ucast asize)) asize"

section \<open>The public operations\<close>

text \<open>
  The ways in which the process ends instead of returning: \<open>exit\<close> with a status after a
  line printed on standard output, and the fault of a store to memory that does not exist.
\<close>

datatype abort = Exit string int | Segfault

text \<open>
  An 8-byte slot at \<open>a\<close> lies in the address space when it ends at or before \<open>2 ^ 64\<close>. The
  stores of the allocator go to slots of the region that \<open>mem_sbrk\<close> has handed out, with
  one exception: \<open>mm_init\<close> does not look at the result of its first \<open>mem_sbrk\<close>, and clears
  the list heads through it. When that result is the failure pointer \<open>(void * )-1\<close>, the
  first store, at \<open>2 ^ 64 - 1\<close>, does not lie in the address space and the process is killed.
\<close>

definition slot_fits :: "addr \<Rightarrow> bool" where
  "slot_fits a = (unat a + 8 \<le> 2 ^ 64)"

text \<open>The loop \<open>segListHead[i] = NULL\<close>; \<open>None\<close> when a store kills the process.\<close>

definition init_heads :: "state \<Rightarrow> state option" where
  "init_heads s =
     fold (\<lambda>i r. case r of
                    None \<Rightarrow> None
                  | Some t \<Rightarrow>
                      if slot_fits (head_slot t (int i)) then Some (set_head t (int i) NULL)
                      else None)
       [0 ..< nat TOTALNUMLIST] (Some s)"

text \<open>
  The result is the \<open>int\<close> that \<open>mm_init\<close> returns and the state it leaves, or the fault.
\<close>

definition mm_init :: "state \<Rightarrow> abort + int \<times> state" where
  "mm_init s =
     (let (h, s1) = mem_sbrk s (8 * nat TOTALNUMLIST) in
      case init_heads (s1\<lparr>segListHead := h\<rparr>) of
        None \<Rightarrow> Inl Segfault
      | Some s2 \<Rightarrow>
          (let (p, s3) = mem_sbrk s2 CHUNKSIZE;
               s4 = s3\<lparr>prologue := p\<rparr>
           in
           if p = SBRK_FAILED then Inr (- 1, s4)
           else
             (let s5 = set_allocated s4 (prologue s4) True;
                  s6 = set_block_size s5 (prologue s5) HEADER_SIZE;
                  init_block = prologue s6 + word_of_nat HEADER_SIZE;
                  s7 = set_allocated s6 init_block False;
                  s8 = set_block_size s7 init_block (CHUNKSIZE - OVERHEAD);
                  s9 = set_next s8 init_block NULL;
                  s10 = set_prev s9 init_block NULL;
                  init_footer = get_footer s10 init_block;
                  s11 = set_allocated s10 init_footer False;
                  s12 = set_block_size s11 init_footer (block_size s11 init_block);
                  s13 = set_head s12 (TOTALNUMLIST - 1) init_block;
                  epilogue = init_block + word_of_nat (block_size s13 init_block);
                  s14 = set_allocated s13 epilogue True;
                  s15 = set_block_size s14 epilogue 0
              in Inr (0, s15))))"

text \<open>The state that \<open>mm_init\<close> leaves when it returns.\<close>

abbreviation init_state :: "state \<Rightarrow> state" where
  "init_state s \<equiv> snd (projr (mm_init s))"

text \<open>
  \<open>size\<close> is a \<open>size_t\<close> and \<open>asize\<close>, \<open>extendsize\<close>, \<open>extendwords\<close> are \<open>uint32_t\<close>.
\<close>

definition adjust :: "64 word \<Rightarrow> 32 word" where
  "adjust usize =
     (let size' = usize + word_of_nat OVERHEAD;
          asize = (ucast (push_bit 3 (drop_bit 3 (size' + 7))) :: 32 word)
      in if asize < word_of_nat MIN_BLOCK_SIZE then word_of_nat MIN_BLOCK_SIZE else asize)"

definition malloc_slow :: "state \<Rightarrow> 32 word \<Rightarrow> (addr \<times> state) option" where
  "malloc_slow s asize =
     (case find_fit s (ucast asize) of
        None \<Rightarrow> None
      | Some block \<Rightarrow>
          if block \<noteq> NULL then Some (payload block, place s block (ucast asize))
          else
            (let extendsize = (if asize > word_of_nat CHUNKSIZE then asize else word_of_nat CHUNKSIZE);
                 extendwords = drop_bit 3 extendsize;
                 (block, s1) = extend_heap s (ucast extendwords) True
             in if block \<noteq> NULL then Some (payload block, place s1 block (ucast asize))
                else Some (NULL, s1)))"

definition mm_malloc :: "state \<Rightarrow> 64 word \<Rightarrow> (addr \<times> state) option" where
  "mm_malloc s usize =
     (if usize = 0 then Some (NULL, s)
      else
        (let asize = adjust usize in
         if asize \<le> 96 then
           (let extendsize = asize;
                extendwords = drop_bit 3 extendsize;
                (block, s1) = extend_heap s (ucast extendwords) False
            in if block \<noteq> NULL then Some (payload block, place s1 block (ucast asize))
               else malloc_slow s1 asize)
         else malloc_slow s asize))"

definition mm_free :: "state \<Rightarrow> addr \<Rightarrow> state" where
  "mm_free s p =
     (let block = p - 8;
          s1 = set_allocated s block False;
          footer = get_footer s1 block;
          s2 = set_allocated s1 footer False;
          freeIndex = size_index (block_size s2 block);
          s3 = list_push s2 block freeIndex
      in snd (coalesce s3 block))"

text \<open>
  Modelled from the C library: \<open>memcpy dst src n\<close> copies \<open>n\<close> bytes. Both pointers are
  payload addresses (8-aligned); the last \<open>n mod 8\<close> bytes are the low-order bytes of one
  more slot (little-endian). The source bytes are read before any is written.
\<close>

definition memcpy :: "memory \<Rightarrow> addr \<Rightarrow> addr \<Rightarrow> nat \<Rightarrow> memory" where
  "memcpy m dst src n =
     (let k = n div 8; r = n mod 8;
          m1 = fold (\<lambda>i t. t(dst + 8 * word_of_nat i := m (src + 8 * word_of_nat i))) [0 ..< k] m
      in if r = 0 then m1
         else m1(dst + 8 * word_of_nat k :=
                   (m (src + 8 * word_of_nat k) AND mask (8 * r))
                     OR (m1 (dst + 8 * word_of_nat k) AND NOT (mask (8 * r)))))"

text \<open>The line that \<open>mm_realloc\<close> prints before \<open>exit(1)\<close>, with its final newline.\<close>

definition realloc_diagnostic :: string where
  "realloc_diagnostic = ''ERROR: mm_malloc failed in mm_realloc'' @ [CHR 0x0A]"

definition mm_realloc :: "state \<Rightarrow> addr \<Rightarrow> 64 word \<Rightarrow> (abort + addr \<times> state) option" where
  "mm_realloc s ptr usize =
     (case mm_malloc s usize of
        None \<Rightarrow> None
      | Some (newp, s1) \<Rightarrow>
          if newp = NULL then Some (Inl (Exit realloc_diagnostic 1))
          else
            (let block = ptr - 8;
                 copySize = (word_of_nat (block_size s1 block) :: 64 word);
                 copySize = (if usize < copySize then usize else copySize);
                 s2 = s1\<lparr>mem := memcpy (mem s1) newp ptr (unat copySize)\<rparr>
             in Some (Inr (newp, mm_free s2 ptr))))"

section \<open>The allocation steps as the specification words them\<close>

text \<open>
  Section 4.4 of the specification with natural-number arithmetic: the size adjustment
  \<open>align8 (u + OVERHEAD)\<close> raised to \<open>MIN_BLOCK_SIZE\<close>, the small-request fast path,
  the first-fit search and the growth by \<open>max asize CHUNKSIZE\<close>. The search and the
  growth are also reached when the fast path's extension did not succeed.
\<close>

definition align8 :: "nat \<Rightarrow> nat" where
  "align8 n = (n + 7) div 8 * 8"

definition alloc_spec :: "state \<Rightarrow> nat \<Rightarrow> (addr \<times> state) option" where
  "alloc_spec s u =
     (if u = 0 then Some (NULL, s)
      else
        (let asize = max MIN_BLOCK_SIZE (align8 (u + OVERHEAD));
             fast = (if asize \<le> 96 then extend_heap s (word_of_nat (asize div 8)) False
                     else (NULL, s))
         in
         if fst fast \<noteq> NULL
         then Some (payload (fst fast), place (snd fast) (fst fast) (word_of_nat asize))
         else
           (case find_fit (snd fast) (word_of_nat asize) of
              None \<Rightarrow> None
            | Some b \<Rightarrow>
                if b \<noteq> NULL then Some (payload b, place (snd fast) b (word_of_nat asize))
                else
                  (let grown = extend_heap (snd fast)
                                 (word_of_nat (max asize CHUNKSIZE div 8)) True
                   in if fst grown \<noteq> NULL
                      then Some (payload (fst grown),
                                 place (snd grown) (fst grown) (word_of_nat asize))
                      else Some (NULL, snd grown)))))"

section \<open>Concrete heaps\<close>

text \<open>
  A heap that starts at address 4096, holds zeros, and whose extender grants a request as
  long as the break stays at or below \<open>limit\<close>; and the heap that \<open>mm_init\<close> leaves
  when the limit is exactly what \<open>mm_init\<close> asks for.
\<close>

definition fresh_heap :: "nat \<Rightarrow> state" where
  "fresh_heap limit =
     \<lparr>mem = (\<lambda>_. 0), segListHead = 0, prologue = 0, mem_brk = 4096,
      mem_grant = (\<lambda>b n. unat b + n \<le> limit)\<rparr>"

definition full_heap :: state where
  "full_heap = init_state (fresh_heap (4096 + 88 + 65536))"

text \<open>A heap with room left after \<open>mm_init\<close>.\<close>

definition roomy_heap :: state where
  "roomy_heap = init_state (fresh_heap 200000)"



section \<open>Walking the heap and the free lists\<close>

text \<open>
  The walk of \<open>mm_checkheap\<close>: from a block to the next one by its size, up to the block
  of size 0 (the epilogue); and the walk of \<open>find_fit\<close> along the \<open>next\<close> links up to
  \<open>NULL\<close>. Both carry a bound on the number of steps and give \<open>None\<close> beyond it.
\<close>

fun heap_walk :: "state \<Rightarrow> addr \<Rightarrow> nat \<Rightarrow> (addr \<times> nat \<times> bool) list option" where
  "heap_walk s a 0 = None"
| "heap_walk s a (Suc k) =
     (if block_size s a = 0 then Some [(a, 0, allocated s a)]
      else map_option ((#) (a, block_size s a, allocated s a))
             (heap_walk s (a + word_of_nat (block_size s a)) k))"

fun list_walk :: "state \<Rightarrow> addr \<Rightarrow> nat \<Rightarrow> addr list option" where
  "list_walk s b 0 = None"
| "list_walk s b (Suc k) =
     (if b = NULL then Some [] else map_option ((#) b) (list_walk s (body_next s b) k))"

definition free_list :: "state \<Rightarrow> int \<Rightarrow> nat \<Rightarrow> addr list option" where
  "free_list s i k = list_walk s (head s i) k"

section \<open>Free lists as lists\<close>

text \<open>
  A free list is doubly linked: \<open>seg s p h xs t\<close> says that following \<open>next\<close> from \<open>h\<close>
  visits the blocks \<open>xs\<close> in order and ends at \<open>t\<close>, and that each \<open>prev\<close> is the block
  before (\<open>p\<close> for the first). \<open>links\<close> are the two slots of a block that hold them.
\<close>

fun seg :: "state \<Rightarrow> addr \<Rightarrow> addr \<Rightarrow> addr list \<Rightarrow> addr \<Rightarrow> bool" where
  "seg s p h [] t = (h = t)"
| "seg s p h (x # xs) t = (h = x \<and> x \<noteq> NULL \<and> body_prev s x = p \<and> seg s x (body_next s x) xs t)"

definition dll :: "state \<Rightarrow> addr \<Rightarrow> addr list \<Rightarrow> bool" where
  "dll s h xs = seg s NULL h xs NULL"

definition links :: "addr \<Rightarrow> addr set" where
  "links x = {x + 8, x + 16}"

definition apart :: "addr list \<Rightarrow> bool" where
  "apart xs = (distinct xs \<and> (\<forall>x\<in>set xs. \<forall>y\<in>set xs. x \<noteq> y \<longrightarrow> links x \<inter> links y = {}))"

section \<open>The heap as a list of blocks\<close>

text \<open>
  The heap as a list of blocks. A block is its address, its size and its allocated flag;
  addresses are natural numbers here, \<open>adr\<close> is the pointer. \<open>contig a bl e\<close> says that
  the blocks \<open>bl\<close> tile the bytes from \<open>a\<close> to \<open>e\<close> with sizes that are multiples of 8 and at
  least \<open>MIN_BLOCK_SIZE\<close>; \<open>tags s\<close> that header and footer of a block agree with the list.
\<close>

type_synonym blk = "nat \<times> nat \<times> bool"

definition adr :: "nat \<Rightarrow> addr" where
  "adr n = word_of_nat n"

fun contig :: "nat \<Rightarrow> blk list \<Rightarrow> nat \<Rightarrow> bool" where
  "contig a [] e = (a = e)"
| "contig a ((b, n, al) # bl) e = (b = a \<and> 32 \<le> n \<and> 8 dvd n \<and> contig (a + n) bl e)"

definition tags :: "state \<Rightarrow> blk \<Rightarrow> bool" where
  "tags s blk =
     (case blk of (b, n, al) \<Rightarrow>
        block_size s (adr b) = n \<and> allocated s (adr b) = al
        \<and> block_size s (adr (b + n - 8)) = n \<and> allocated s (adr (b + n - 8)) = al)"

text \<open>
  The layout of section 3 of the specification: the list-head array, the prologue, the
  blocks, the epilogue in the last 8 bytes below the break; the whole region lies in the
  address space and is shorter than \<open>2 ^ 31\<close> bytes, the range of the size field.
\<close>

definition layout :: "state \<Rightarrow> blk list \<Rightarrow> bool" where
  "layout s bl =
     (let H = unat (segListHead s); P = unat (prologue s); B = unat (mem_brk s) in
      P = H + 88 \<and> P + 16 \<le> B \<and> B - H < 2 ^ 31
      \<and> contig (P + 8) bl (B - 8)
      \<and> block_size s (prologue s) = 8 \<and> allocated s (prologue s)
      \<and> block_size s (adr (B - 8)) = 0 \<and> allocated s (adr (B - 8))
      \<and> list_all (tags s) bl)"

text \<open>
  The free lists: list \<open>k\<close> is doubly linked from \<open>segListHead[k]\<close>, without repetition, and
  holds free blocks of class \<open>k\<close> only. \<open>complete\<close>: every free block is on the list of its class.
\<close>

definition lists :: "state \<Rightarrow> blk list \<Rightarrow> (nat \<Rightarrow> nat list) \<Rightarrow> bool" where
  "lists s bl fl =
     (\<forall>k<11. dll s (head s (int k)) (map adr (fl k)) \<and> distinct (fl k)
        \<and> (\<forall>x\<in>set (fl k). \<exists>n. (x, n, False) \<in> set bl \<and> size_index n = int k))"


text \<open>The slots that belong to the free lists: the list heads and the links of the blocks.\<close>

definition head_slots :: "state \<Rightarrow> addr set" where
  "head_slots s = (\<lambda>k. head_slot s (int k)) ` {..<11}"

definition link_slots :: "blk list \<Rightarrow> addr set" where
  "link_slots bl = (\<Union>(b, n, al)\<in>set bl. links (adr b))"

text \<open>The class of a block size as an index into the list-head array.\<close>

definition size_class :: "nat \<Rightarrow> nat" where
  "size_class n = nat (size_index n)"

text \<open>The heap after \<open>mm_init\<close> and one fast-path extension by 32 bytes, before placement.\<close>

definition extended_heap :: state where
  "extended_heap = snd (extend_heap roomy_heap 4 False)"

text \<open>The free lists of \<open>full_heap\<close> and of \<open>extended_heap\<close>.\<close>

definition full_lists :: "nat \<Rightarrow> nat list" where
  "full_lists k = (if k = 10 then [4192] else [])"

definition extended_lists :: "nat \<Rightarrow> nat list" where
  "extended_lists k = (if k = 10 then [4192] else if k = 0 then [69712] else [])"

section \<open>Free lists and neighbours of the abstract heap\<close>






definition alloc_bytes :: "blk list \<Rightarrow> nat set" where
  "alloc_bytes bl = (\<Union>(x, m, al)\<in>set bl. if al then {x ..< x + m} else {})"

section \<open>Header fields\<close>

lemma slot_allocated_set_allocated [simp]:
  "slot_allocated (slot_set_allocated v w) = v"
  by (simp add: slot_allocated_def slot_set_allocated_def bit_simps)

lemma slot_block_size_set_allocated [simp]:
  "slot_block_size (slot_set_allocated v w) = slot_block_size w"
proof -
  have "take_bit 31 (drop_bit 1 (slot_set_allocated v w)) = take_bit 31 (drop_bit 1 w)"
    by (rule bit_eqI) (auto simp: slot_set_allocated_def bit_simps)
  then show ?thesis by (simp add: slot_block_size_def)
qed

lemma bit_double_right:
  "bit (a * 2 :: 64 word) n \<longleftrightarrow> bit a (n - 1) \<and> n \<noteq> 0 \<and> n < 64"
  using bit_double_iff [of a n] by (auto simp: mult.commute possible_bit_word)

lemma slot_allocated_set_block_size [simp]:
  "slot_allocated (slot_set_block_size n w) = slot_allocated w"
  by (simp add: slot_allocated_def slot_set_block_size_def bit_double_right bit_simps)

lemma slot_block_size_set_block_size [simp]:
  "slot_block_size (slot_set_block_size n w) = n mod 2 ^ 31"
proof -
  have "take_bit 31 (drop_bit 1 (slot_set_block_size n w)) = (take_bit 31 (word_of_nat n) :: 64 word)"
    by (rule bit_eqI) (auto simp: slot_set_block_size_def bit_double_right bit_simps)
  then have "slot_block_size (slot_set_block_size n w) = unat (take_bit 31 (word_of_nat n :: 64 word))"
    by (simp only: slot_block_size_def)
  also have "\<dots> = take_bit 31 (unat (word_of_nat n :: 64 word))"
    by (simp only: unsigned_take_bit_eq)
  also have "\<dots> = take_bit 31 (take_bit 64 n)"
    by (simp only: unat_of_nat take_bit_eq_mod) simp
  also have "\<dots> = take_bit 31 n"
    by simp
  also have "\<dots> = n mod 2 ^ 31"
    by (simp only: take_bit_eq_mod)
  finally show ?thesis .
qed

lemma slot_block_size_less: "slot_block_size w < 2 ^ 31"
proof -
  have "unat (take_bit 31 (drop_bit 1 w)) = take_bit 31 (unat (drop_bit 1 w))"
    by (simp add: unsigned_take_bit_eq)
  then show ?thesis by (simp add: slot_block_size_def take_bit_eq_mod)
qed


section \<open>Globals are left alone by the memory operations\<close>

named_theorems globals \<open>operations that leave the global variables and the extender alone\<close>

lemma store_globals [simp, globals]:
  "segListHead (store s a v) = segListHead s"
  "prologue (store s a v) = prologue s"
  "mem_brk (store s a v) = mem_brk s"
  "mem_grant (store s a v) = mem_grant s"
  by (simp_all add: store_def)

lemma setters_globals [simp, globals]:
  "segListHead (set_allocated s a b) = segListHead s"
  "prologue (set_allocated s a b) = prologue s"
  "mem_brk (set_allocated s a b) = mem_brk s"
  "mem_grant (set_allocated s a b) = mem_grant s"
  "segListHead (set_block_size s a n) = segListHead s"
  "prologue (set_block_size s a n) = prologue s"
  "mem_brk (set_block_size s a n) = mem_brk s"
  "mem_grant (set_block_size s a n) = mem_grant s"
  "segListHead (set_next s a p) = segListHead s"
  "prologue (set_next s a p) = prologue s"
  "mem_brk (set_next s a p) = mem_brk s"
  "mem_grant (set_next s a p) = mem_grant s"
  "segListHead (set_prev s a p) = segListHead s"
  "prologue (set_prev s a p) = prologue s"
  "mem_brk (set_prev s a p) = mem_brk s"
  "mem_grant (set_prev s a p) = mem_grant s"
  "segListHead (set_head s i p) = segListHead s"
  "prologue (set_head s i p) = prologue s"
  "mem_brk (set_head s i p) = mem_brk s"
  "mem_grant (set_head s i p) = mem_grant s"
  by (simp_all add: set_allocated_def set_block_size_def set_next_def set_prev_def set_head_def)

lemma head_slot_cong [simp]:
  "head_slot (store s a v) i = head_slot s i"
  "head_slot (set_allocated s a b) i = head_slot s i"
  "head_slot (set_block_size s a n) i = head_slot s i"
  "head_slot (set_next s a p) i = head_slot s i"
  "head_slot (set_prev s a p) i = head_slot s i"
  "head_slot (set_head s j p) i = head_slot s i"
  by (simp_all add: head_slot_def)

lemma list_push_globals [simp, globals]:
  "segListHead (list_push s b i) = segListHead s"
  "prologue (list_push s b i) = prologue s"
  "mem_brk (list_push s b i) = mem_brk s"
  "mem_grant (list_push s b i) = mem_grant s"
  by (simp_all add: list_push_def Let_def)

lemma list_pop_globals [simp, globals]:
  "segListHead (list_pop s b i) = segListHead s"
  "prologue (list_pop s b i) = prologue s"
  "mem_brk (list_pop s b i) = mem_brk s"
  "mem_grant (list_pop s b i) = mem_grant s"
  by (simp_all add: list_pop_def Let_def)

section \<open>Properties of the size-class function\<close>

lemma bit_top_iff:
  fixes w :: "32 word"
  assumes "unat w < 2 ^ Suc n"
  shows "bit w n \<longleftrightarrow> 2 ^ n \<le> unat w"
proof -
  have "bit w n \<longleftrightarrow> bit (unat w) n"
    by (simp add: bit_unsigned_iff)
  also have "\<dots> \<longleftrightarrow> odd (unat w div 2 ^ n)"
    by (simp add: bit_iff_odd)
  also have "\<dots> \<longleftrightarrow> 2 ^ n \<le> unat w"
  proof
    assume "odd (unat w div 2 ^ n)"
    then have "unat w div 2 ^ n \<noteq> 0" by (metis even_zero)
    then show "2 ^ n \<le> unat w" by (simp add: div_eq_0_iff not_less)
  next
    assume h: "2 ^ n \<le> unat w"
    have "unat w div 2 ^ n < 2" using assms by (simp add: less_mult_imp_div_less mult.commute)
    moreover have "1 \<le> unat w div 2 ^ n" using h
      by (metis div_greater_zero_iff less_one not_less zero_less_numeral zero_less_power linorder_not_less One_nat_def Suc_leI)
    ultimately have "unat w div 2 ^ n = 1" by simp
    then show "odd (unat w div 2 ^ n)" by simp
  qed
  finally show ?thesis .
qed

lemma clz_from_floorlog:
  "unat w < 2 ^ n \<Longrightarrow> clz_from n w = n - floorlog 2 (unat w)"
proof (induction n)
  case 0
  then show ?case by simp
next
  case (Suc n)
  show ?case
  proof (cases "bit w n")
    case True
    with Suc.prems have "2 ^ n \<le> unat w" by (simp add: bit_top_iff)
    then have "\<not> floorlog 2 (unat w) \<le> n"
      using floorlog_leD[of 2 "unat w" n] by auto
    then show ?thesis using True by simp
  next
    case False
    with Suc.prems have lt: "unat w < 2 ^ n" by (simp add: bit_top_iff)
    then have "floorlog 2 (unat w) \<le> n" by (simp add: floorlog_leI)
    then show ?thesis using False Suc.IH[OF lt] by simp
  qed
qed

lemma builtin_clz_floorlog: "builtin_clz w = 32 - floorlog 2 (unat w)"
  unfolding builtin_clz_def
  by (rule clz_from_floorlog) (use unsigned_less[of w] in simp)

lemma floorlog_le_32: "floorlog 2 (unat (w::32 word)) \<le> 32"
  by (rule floorlog_leI) (use unsigned_less[of w] in simp_all)

lemma logBaseTwo_floorlog: "logBaseTwo w = int (floorlog 2 (unat w)) - 1"
  using floorlog_le_32[of w] by (simp add: logBaseTwo_def builtin_clz_floorlog)

lemma floorlog_ge6: "32 \<le> n \<Longrightarrow> 6 \<le> floorlog 2 n"
  using floorlog_leD[of 2 n 5] by (cases "floorlog 2 n \<le> 5") auto

lemma floorlog_le5: "n < 32 \<Longrightarrow> floorlog 2 n \<le> 5"
  by (rule floorlog_leI) simp_all

text \<open>
  C6, as the code has it. For every size \<open>s \<ge> 1\<close> the size-class function returns
  \<open>min (C - 1) (\<lfloor>log\<^sub>2 s\<rfloor> - 5)\<close> with \<open>C = 11\<close>; nothing clamps the result at 0 from below.
  The index lies in \<open>[0, 10]\<close> for every \<open>s \<ge> 32\<close> and is negative for every
  \<open>1 \<le> s < 32\<close>. (\<open>floorlog 2 s\<close> is \<open>\<lfloor>log\<^sub>2 s\<rfloor> + 1\<close>.)
\<close>

theorem segListIndex_formula:
  "1 \<le> unat w \<Longrightarrow>
   segListIndex w = min (TOTALNUMLIST - 1) (int (floorlog 2 (unat w)) - 1 - 5)
   \<and> (32 \<le> unat w \<longrightarrow> 0 \<le> segListIndex w \<and> segListIndex w \<le> 10)
   \<and> (unat w < 32 \<longrightarrow> segListIndex w < 0)"
  using floorlog_ge6[of "unat w"] floorlog_le5[of "unat w"]
  by (auto simp: segListIndex_def logBaseTwo_floorlog TOTALNUMLIST_def Let_def min_def)

theorem segListIndex_formula_witness:
  "1 \<le> unat (65520 :: 32 word) \<and> 32 \<le> unat (65520 :: 32 word)
   \<and> 0 \<le> segListIndex 65520 \<and> segListIndex 65520 \<le> 10
   \<and> 1 \<le> unat (16 :: 32 word) \<and> unat (16 :: 32 word) < 32 \<and> segListIndex 16 < 0"
proof -
  have a: "1 \<le> unat (65520 :: 32 word)" and b: "32 \<le> unat (65520 :: 32 word)"
    and c: "1 \<le> unat (16 :: 32 word)" and d: "unat (16 :: 32 word) < 32"
    by simp_all
  from segListIndex_formula [OF a] segListIndex_formula [OF c] a b c d
  show ?thesis by blast
qed

text \<open>
  The claim as written asks for an index in \<open>[0, 10]\<close> also for sizes below 32; the code
  returns \<open>- 1\<close> for the size 16.
\<close>

theorem segListIndex_unclamped:
  "\<not> (0 \<le> segListIndex 16 \<and> segListIndex 16 \<le> 10)"
  by (simp add: segListIndex_def logBaseTwo_def builtin_clz_def TOTALNUMLIST_def eval_nat_numeral)


section \<open>Size adjustment\<close>

lemma unat_push_drop_64: "unat (push_bit 3 (drop_bit 3 (w::64 word))) = unat w div 8 * 8"
proof -
  have "unat w div 8 * 8 \<le> unat w" by simp
  also have "unat w < 2 ^ 64" using unsigned_less[of w] by simp
  finally have "unat w div 8 * 8 < 2 ^ 64" .
  then show ?thesis
    by (simp add: push_bit_eq_mult drop_bit_eq_div unat_word_ariths unat_div)
qed

lemma unat_push_drop_32: "unat (push_bit 3 (drop_bit 3 (w::32 word))) = unat w div 8 * 8"
proof -
  have "unat w div 8 * 8 \<le> unat w" by simp
  also have "unat w < 2 ^ 32" using unsigned_less[of w] by simp
  finally have "unat w div 8 * 8 < 2 ^ 32" .
  then show ?thesis
    by (simp add: push_bit_eq_mult drop_bit_eq_div unat_word_ariths unat_div)
qed

lemma unat_adjust_raw:
  "unat (adjust u) = max 32 ((unat u + 23) mod 2 ^ 64 div 8 * 8 mod 2 ^ 32)"
proof -
  define w where "w = u + word_of_nat OVERHEAD + 7"
  have "w = u + 23"
    by (simp add: w_def OVERHEAD_def HEADER_SIZE_def)
  then have w: "unat w = (unat u + 23) mod 2 ^ 64"
    by (simp add: unat_word_ariths)
  have "unat (ucast (push_bit 3 (drop_bit 3 w)) :: 32 word) = unat w div 8 * 8 mod 2 ^ 32"
    by (simp add: unsigned_ucast_eq take_bit_eq_mod unat_push_drop_64)
  then show ?thesis
    unfolding adjust_def Let_def w_def [symmetric] w [symmetric]
    by (simp add: MIN_BLOCK_SIZE_def word_less_nat_alt max_def)
qed

lemma unat_adjust_exact:
  assumes "unat u + 23 < 2 ^ 32"
  shows "unat (adjust u) = max MIN_BLOCK_SIZE (align8 (unat u + OVERHEAD))"
proof -
  have "(unat u + 23) div 8 * 8 \<le> unat u + 23" by simp
  with assms have "(unat u + 23) div 8 * 8 < 2 ^ 32" by linarith
  moreover have "unat u + 23 < 2 ^ 64" using assms by simp
  ultimately have "(unat u + 23) mod 2 ^ 64 div 8 * 8 mod 2 ^ 32 = (unat u + 23) div 8 * 8"
    by simp
  moreover have "align8 (unat u + OVERHEAD) = (unat u + 23) div 8 * 8"
    by (simp add: align8_def OVERHEAD_def HEADER_SIZE_def add.commute)
  ultimately show ?thesis
    by (simp only: unat_adjust_raw MIN_BLOCK_SIZE_def)
qed

lemma adjust_ge_32: "32 \<le> unat (adjust u)"
  by (simp add: unat_adjust_raw)

lemma adjust_dvd: "8 dvd unat (adjust u)"
proof -
  have "(8::nat) dvd 2 ^ 32" by simp
  then have "8 dvd (n div 8 * 8 mod 2 ^ 32)" for n :: nat
    by (simp add: dvd_mod)
  then show ?thesis by (simp add: unat_adjust_raw max_def)
qed

lemma words_roundtrip:
  fixes a :: "32 word"
  assumes "8 dvd unat a"
  shows "(ucast (push_bit 3 (ucast (drop_bit 3 a) :: 64 word)) :: 32 word) = a"
proof -
  have lt: "unat a < 2 ^ 32" using unsigned_less[of a] by simp
  have "unat a div 8 * 8 = unat a" using assms by simp
  have "unat (ucast (push_bit 3 (ucast (drop_bit 3 a) :: 64 word)) :: 32 word) = unat a"
    using lt assms
    by (simp add: unsigned_ucast_eq take_bit_eq_mod push_bit_eq_mult drop_bit_eq_div unat_word_ariths unat_div)
  then show ?thesis by (simp add: word_unat_eq_iff)
qed




section \<open>The flow of \<open>mm_malloc\<close>\<close>

lemma extend_heap_refused:
  fixes a :: "32 word"
  assumes "8 dvd unat a" "a \<noteq> 0" "\<not> mem_grant s (mem_brk s) (unat a)"
  shows "extend_heap s (ucast (drop_bit 3 a)) c = (NULL, s)"
  unfolding extend_heap_def words_roundtrip [OF assms(1)]
  using assms(2,3) by (simp add: mem_sbrk_def)

lemma adjust_neq_0: "adjust u \<noteq> 0"
  using adjust_ge_32[of u] by (cases "adjust u = 0") simp_all

lemma chunk_words: "(drop_bit 3 (word_of_nat CHUNKSIZE :: 32 word)) = 8192"
  by (simp add: CHUNKSIZE_def drop_bit_eq_div)

text \<open>
  C9. For a request whose adjusted size is at most 96, when the extender refuses the fast
  path's extension, \<open>mm_malloc\<close> does not return \<open>NULL\<close> there: with the state unchanged
  it runs the first-fit search, then the extension by \<open>CHUNKSIZE\<close> (the larger of \<open>asize\<close>
  and \<open>CHUNKSIZE\<close>), and \<open>NULL\<close> is the result only when that last extension gives
  \<open>NULL\<close>.
\<close>

theorem fast_path_failure_falls_through:
  assumes "usize \<noteq> 0" and "adjust usize \<le> 96"
    and "\<not> mem_grant s (mem_brk s) (unat (adjust usize))"
  shows "mm_malloc s usize =
     (case find_fit s (ucast (adjust usize)) of
        None \<Rightarrow> None
      | Some b \<Rightarrow>
          if b \<noteq> NULL then Some (payload b, place s b (ucast (adjust usize)))
          else
            (let grown = extend_heap s (word_of_nat (CHUNKSIZE div 8)) True
             in if fst grown \<noteq> NULL
                then Some (payload (fst grown), place (snd grown) (fst grown) (ucast (adjust usize)))
                else Some (NULL, snd grown)))"
proof -
  have "\<not> adjust usize > word_of_nat CHUNKSIZE"
    using assms(2) by (simp add: CHUNKSIZE_def word_less_nat_alt word_le_nat_alt)
  then show ?thesis
    using assms extend_heap_refused[OF adjust_dvd adjust_neq_0 assms(3), of False]
    by (simp add: mm_malloc_def malloc_slow_def Let_def split_beta chunk_words CHUNKSIZE_def
        split: option.splits)
qed


lemma ucast_32_64_of_nat:
  "n < 2 ^ 32 \<Longrightarrow> unat (a :: 32 word) = n \<Longrightarrow> (ucast a :: 64 word) = word_of_nat n"
  by (metis of_nat_unat)

lemma drop3_of_nat:
  fixes a :: "32 word"
  shows "(ucast (drop_bit 3 a) :: 64 word) = word_of_nat (unat a div 8)"
proof -
  have "unat (drop_bit 3 a) = unat a div 8"
    by (simp add: drop_bit_eq_div unat_div)
  then show ?thesis by (metis of_nat_unat)
qed

lemma extend_heap_fresh:
  fixes a :: "32 word"
  assumes "8 dvd unat a" "a \<noteq> 0" "mem_grant s (mem_brk s) (unat a)" "mem_brk s \<noteq> SBRK_FAILED"
  shows "fst (extend_heap s (ucast (drop_bit 3 a)) False) = mem_brk s - 8"
    and "mem_brk (snd (extend_heap s (ucast (drop_bit 3 a)) False)) = mem_brk s + ucast a"
  unfolding extend_heap_def words_roundtrip [OF assms(1)]
  using assms(2,3,4) by (simp_all add: mem_sbrk_def Let_def)

text \<open>
  C1, as the code has it. For every request \<open>u\<close> with \<open>u + 23 < 2 ^ 32\<close> (the adjusted
  size is computed in 32 bits), \<open>mm_malloc\<close> is \<open>alloc_spec\<close>: \<open>NULL\<close> and no change for
  \<open>u = 0\<close>; otherwise \<open>asize = max 32 (align8 (u + 16))\<close>; for \<open>asize \<le> 96\<close> the heap is
  extended by \<open>asize\<close> bytes without coalescing and, when that gives a block, the request is
  placed there; in every other case, also after a fast-path extension that failed, the
  first-fit search runs, then the extension by \<open>max asize CHUNKSIZE\<close> with coalescing, and
  \<open>NULL\<close> is returned when this last extension fails.
\<close>

theorem mm_malloc_flow:
  assumes "unat usize + 23 < 2 ^ 32"
  shows "mm_malloc s usize = alloc_spec s (unat usize)"
proof (cases "usize = 0")
  case True
  then show ?thesis by (simp add: mm_malloc_def alloc_spec_def)
next
  case False
  define A where "A = max MIN_BLOCK_SIZE (align8 (unat usize + OVERHEAD))"
  have A: "unat (adjust usize) = A"
    using assms by (simp add: A_def unat_adjust_exact)
  have a64: "(ucast (adjust usize) :: 64 word) = word_of_nat A"
    using A by (metis of_nat_unat)
  have w: "(ucast (drop_bit 3 (adjust usize)) :: 64 word) = word_of_nat (A div 8)"
    by (simp add: drop3_of_nat A)
  have le: "adjust usize \<le> 96 \<longleftrightarrow> A \<le> 96"
    using A by (simp add: word_le_nat_alt)
  have gt: "adjust usize > word_of_nat CHUNKSIZE \<longleftrightarrow> A > CHUNKSIZE"
    using A by (simp add: word_less_nat_alt CHUNKSIZE_def)
  have c: "(ucast (drop_bit 3 (word_of_nat CHUNKSIZE :: 32 word)) :: 64 word)
      = word_of_nat (CHUNKSIZE div 8)"
    by (simp add: drop3_of_nat CHUNKSIZE_def)
  have nz: "unat usize \<noteq> 0" using False by (simp add: unat_eq_0)
  have x: "(if adjust usize > word_of_nat CHUNKSIZE then adjust usize else word_of_nat CHUNKSIZE)
      = (word_of_nat (max A CHUNKSIZE) :: 32 word)"
    using A gt by (metis max_def not_less of_nat_unat max.absorb3 max.absorb4 ucast_id less_imp_le)
  have m: "unat (word_of_nat (max A CHUNKSIZE) :: 32 word) = max A CHUNKSIZE"
  proof -
    have "unat (adjust usize) < 2 ^ 32" using unsigned_less[of "adjust usize"] by simp
    then show ?thesis using A by (simp add: unat_of_nat CHUNKSIZE_def max_def)
  qed
  have ew: "(ucast (drop_bit 3 (if adjust usize > word_of_nat CHUNKSIZE then adjust usize
               else word_of_nat CHUNKSIZE)) :: 64 word) = word_of_nat (max A CHUNKSIZE div 8)"
    unfolding x by (simp only: drop3_of_nat m)
  have slow: "malloc_slow t (adjust usize) =
     (case find_fit t (word_of_nat A) of
        None \<Rightarrow> None
      | Some b \<Rightarrow>
          if b \<noteq> NULL then Some (payload b, place t b (word_of_nat A))
          else
            (let grown = extend_heap t (word_of_nat (max A CHUNKSIZE div 8)) True
             in if fst grown \<noteq> NULL
                then Some (payload (fst grown), place (snd grown) (fst grown) (word_of_nat A))
                else Some (NULL, snd grown)))" for t
    unfolding malloc_slow_def Let_def ew a64 split_beta ..
  show ?thesis
  proof (cases "A \<le> 96")
    case True
    then show ?thesis
      using False nz unfolding mm_malloc_def alloc_spec_def A_def [symmetric] Let_def split_beta slow w a64
      by (simp add: le)
  next
    case no: False
    then show ?thesis
      using False nz unfolding mm_malloc_def alloc_spec_def A_def [symmetric] Let_def split_beta slow w a64
      by (simp add: le split: option.splits)
  qed
qed


section \<open>Evaluating the operations\<close>

text \<open>
  Unfolding a chain of \<open>let\<close>s with \<open>let_weak_cong\<close> computes each bound state before it
  is substituted.
\<close>

lemmas eval_defs = store_def set_allocated_def set_block_size_def set_next_def set_prev_def
  set_head_def head_def head_slot_def body_next_def body_prev_def allocated_def block_size_def
  get_footer_def payload_def mem_sbrk_def NULL_def SBRK_FAILED_def
  CHUNKSIZE_def HEADER_SIZE_def OVERHEAD_def MIN_BLOCK_SIZE_def TOTALNUMLIST_def
  Let_def

lemma slot_fits_head:
  assumes "unat (segListHead s) + 88 \<le> 2 ^ 64" "i < 11"
  shows "slot_fits (head_slot s (int i))"
proof -
  have "8 * i < 2 ^ 64" using assms by simp
  then have "unat (word_of_nat (8 * i) :: addr) = 8 * i"
    by (simp only: unat_of_nat) simp
  moreover have "unat (segListHead s) + 8 * i < 2 ^ 64" using assms by simp
  ultimately have "unat (segListHead s + word_of_nat (8 * i)) = unat (segListHead s) + 8 * i"
    by (simp add: unat_word_ariths)
  moreover have "head_slot s (int i) = segListHead s + word_of_nat (8 * i)"
    by (simp add: head_slot_def)
  ultimately show ?thesis using assms by (simp add: slot_fits_def)
qed

lemma init_heads_unfold:
  assumes "unat (segListHead s) + 88 \<le> 2 ^ 64"
  shows "init_heads s = Some (set_head (set_head (set_head (set_head (set_head (set_head (set_head
     (set_head (set_head (set_head (set_head s 0 NULL) 1 NULL) 2 NULL) 3 NULL) 4 NULL) 5 NULL)
      6 NULL) 7 NULL) 8 NULL) 9 NULL) 10 NULL)"
proof -
  have f: "slot_fits (head_slot t (int i))" if "segListHead t = segListHead s" "i < 11" for t i
    using slot_fits_head [of t i] that assms by simp
  show ?thesis
    using f [of _ 0] f [of _ 1] f [of _ 2] f [of _ 3] f [of _ 4] f [of _ 5] f [of _ 6] f [of _ 7]
      f [of _ 8] f [of _ 9] f [of _ 10]
    by (simp add: init_heads_def TOTALNUMLIST_def upt_rec numeral_nat)
qed


lemma unat_minus_1_addr: "unat (- 1 :: addr) = 2 ^ 64 - 1"
  by (simp add: unsigned_minus_1_eq_mask mask_eq_exp_minus_1)

lemma unat_addr_plus:
  fixes b :: addr
  assumes "unat b + k < 2 ^ 64"
  shows "unat (b + word_of_nat k) = unat b + k"
proof -
  have "unat (word_of_nat k :: addr) = k" using assms by (simp add: unat_of_nat)
  then show ?thesis using assms by (simp add: unat_word_ariths)
qed

lemma addr_plus_neq:
  fixes b :: addr
  assumes "unat b + n < 2 ^ 64" "0 < k" "k < n"
  shows "b + word_of_nat k \<noteq> 0" "b + word_of_nat k \<noteq> - 1"
proof -
  have u: "unat (b + word_of_nat k) = unat b + k"
    using assms by (intro unat_addr_plus) simp
  show "b + word_of_nat k \<noteq> 0"
  proof
    assume "b + word_of_nat k = 0"
    then have "unat (b + word_of_nat k) = 0" by simp
    then show False using u assms(2) by simp
  qed
  show "b + word_of_nat k \<noteq> - 1"
  proof
    assume "b + word_of_nat k = - 1"
    then have "unat (b + word_of_nat k) = 2 ^ 64 - 1" by (simp only: unat_minus_1_addr)
    then show False using u assms by simp
  qed
qed

lemma addr_neq_minus_1:
  fixes b :: addr
  assumes "unat b + n < 2 ^ 64" "0 < n"
  shows "b \<noteq> - 1"
proof
  assume "b = - 1"
  then have "unat b = 2 ^ 64 - 1" by (simp only: unat_minus_1_addr)
  then show False using assms by simp
qed


section \<open>The state after \<open>mm_init\<close>\<close>

lemma clz_from_numeral:
  "clz_from (numeral k) w =
     (if bit w (pred_numeral k) then 0 else Suc (clz_from (pred_numeral k) w))"
  by (simp add: numeral_eq_Suc)

lemma size_index_init: "size_index 65520 = 10"
proof -
  have "builtin_clz (65520 :: 32 word) = 16"
    by (simp add: builtin_clz_def clz_from_numeral bit_numeral_word_iff)
  then show ?thesis
    by (simp add: size_index_def segListIndex_def logBaseTwo_def TOTALNUMLIST_def)
qed

text \<open>
  C8. When the extender grants both requests of \<open>mm_init\<close> and the heap lies within the
  address space, \<open>mm_init\<close> returns 0 and leaves: the list-head array at the old break, the
  prologue (allocated, size 8) right after it, one free block of \<open>CHUNKSIZE - OVERHEAD = 65520\<close>
  bytes with a matching footer, and the epilogue (allocated, size 0) in the last 8 bytes;
  the lists 0 to 9 are empty and list 10, the class of 65520, holds the free block alone.
\<close>

theorem mm_init_state:
  assumes g1: "mem_grant s (mem_brk s) 88"
    and g2: "mem_grant s (mem_brk s + 88) CHUNKSIZE"
    and fit: "unat (mem_brk s) + (88 + CHUNKSIZE) < 2 ^ 64"
  shows "mm_init s = Inr (0, init_state s)
    \<and> segListHead (init_state s) = mem_brk s
    \<and> prologue (init_state s) = mem_brk s + 88
    \<and> mem_brk (init_state s) = mem_brk s + 88 + word_of_nat CHUNKSIZE
    \<and> heap_walk (init_state s) (mem_brk s + 88) (Suc (Suc (Suc 0)))
        = Some [(mem_brk s + 88, HEADER_SIZE, True),
                (mem_brk s + 96, CHUNKSIZE - OVERHEAD, False),
                (mem_brk s + 88 + word_of_nat CHUNKSIZE - 8, 0, True)]
    \<and> block_size (init_state s) (get_footer (init_state s) (mem_brk s + 96)) = CHUNKSIZE - OVERHEAD
    \<and> \<not> allocated (init_state s) (get_footer (init_state s) (mem_brk s + 96))
    \<and> map (\<lambda>i. free_list (init_state s) i (Suc (Suc 0))) [0, 1, 2, 3, 4, 5, 6, 7, 8, 9, 10]
        = [Some [], Some [], Some [], Some [], Some [], Some [], Some [], Some [], Some [], Some [],
           Some [mem_brk s + 96]]
    \<and> body_prev (init_state s) (mem_brk s + 96) = NULL
    \<and> size_index (CHUNKSIZE - OVERHEAD) = TOTALNUMLIST - 1"
proof -
  have n1: "mem_brk s \<noteq> - 1"
    using addr_neq_minus_1[OF fit] by (simp add: CHUNKSIZE_def)
  have n2: "mem_brk s + 88 \<noteq> - 1" "mem_brk s + 96 \<noteq> 0"
    using addr_plus_neq[OF fit, of 88] addr_plus_neq[OF fit, of 96] by (simp_all add: CHUNKSIZE_def)
  have n3: "96 + mem_brk s \<noteq> 0" "88 + mem_brk s \<noteq> - 1"
    using n2 by (simp_all add: add.commute)
  have h: "unat (mem_brk s) + 88 \<le> 2 ^ 64" using fit by simp
  show ?thesis
    using g1 g2 n1 n3 size_index_init h
    by (simp add: mm_init_def init_heads_unfold eval_defs free_list_def cong: let_weak_cong)
qed


section \<open>Concrete heaps, evaluated\<close>

lemma full_heap_eq:
  "full_heap =
     \<lparr>mem = (\<lambda>_. 0)
        (4096 := 0, 4104 := 0, 4112 := 0, 4120 := 0, 4128 := 0, 4136 := 0,
         4144 := 0, 4152 := 0, 4160 := 0, 4168 := 0, 4184 := 17,
         4192 := 131040, 4200 := 0, 4208 := 0, 69704 := 131040,
         4176 := 4192, 69712 := 1),
      segListHead = 4096, prologue = 4184, mem_brk = 69720,
      mem_grant = \<lambda>b n. unat b + n \<le> 69720\<rparr>"
  by (simp add: full_heap_def fresh_heap_def mm_init_def init_heads_unfold eval_defs
      slot_set_allocated_def slot_set_block_size_def slot_block_size_def mask_eq_exp_minus_1
      cong: let_weak_cong)

lemma roomy_heap_eq:
  "roomy_heap =
     \<lparr>mem = (\<lambda>_. 0)
        (4096 := 0, 4104 := 0, 4112 := 0, 4120 := 0, 4128 := 0, 4136 := 0,
         4144 := 0, 4152 := 0, 4160 := 0, 4168 := 0, 4184 := 17,
         4192 := 131040, 4200 := 0, 4208 := 0, 69704 := 131040,
         4176 := 4192, 69712 := 1),
      segListHead = 4096, prologue = 4184, mem_brk = 69720,
      mem_grant = \<lambda>b n. unat b + n \<le> 200000\<rparr>"
  by (simp add: roomy_heap_def fresh_heap_def mm_init_def init_heads_unfold eval_defs
      slot_set_allocated_def slot_set_block_size_def slot_block_size_def mask_eq_exp_minus_1
      cong: let_weak_cong)

lemma adjust_16: "adjust 16 = 32"
  by (simp add: adjust_def eval_defs drop_bit_eq_div push_bit_eq_mult)

lemma adjust_huge: "adjust 4294967296 = 32"
  by (simp add: adjust_def eval_defs drop_bit_eq_div push_bit_eq_mult)

lemma size_index_32: "size_index 32 = 0"
proof -
  have "builtin_clz (32 :: 32 word) = 26"
    by (simp add: builtin_clz_def clz_from_numeral bit_numeral_word_iff)
  then show ?thesis
    by (simp add: size_index_def segListIndex_def logBaseTwo_def TOTALNUMLIST_def)
qed

lemma segListIndex_32: "segListIndex 32 = 0"
  using size_index_32 by (simp add: size_index_def)

lemma full_heap_refuses: "\<not> mem_grant full_heap (mem_brk full_heap) (unat (adjust 16))"
  by (simp add: full_heap_eq adjust_16)

lemma full_heap_find_fit: "find_fit full_heap 32 = Some 4192"
  by (simp add: find_fit_def segListIndex_32 find_in_list.simps full_heap_eq eval_defs
      slot_allocated_def slot_block_size_def)

text \<open>
  C1 as written has \<open>mm_malloc\<close> return \<open>NULL\<close> when the extender fails. On the full heap
  the request of 16 bytes has \<open>asize = 32 \<le> 96\<close>, the extender refuses the 32 bytes, and
  \<open>mm_malloc\<close> still returns a payload: the one of the free block found by first fit.
\<close>

theorem fast_path_failure_returns_block:
  "adjust 16 \<le> 96 \<and> fst (mem_sbrk full_heap (unat (adjust 16))) = SBRK_FAILED
   \<and> map_option fst (mm_malloc full_heap 16) = Some 4200"
proof -
  have "extend_heap full_heap 4 False = (NULL, full_heap)"
    by (simp add: extend_heap_def full_heap_eq mem_sbrk_def SBRK_FAILED_def)
  then have "mm_malloc full_heap 16 = Some (4200, place full_heap 4192 32)"
    by (simp add: mm_malloc_def malloc_slow_def adjust_16 full_heap_find_fit NULL_def payload_def
        drop_bit_eq_div)
  then show ?thesis using full_heap_refuses by (simp add: adjust_16 mem_sbrk_def)
qed

theorem fast_path_failure_falls_through_witness:
  "(16 :: 64 word) \<noteq> 0 \<and> adjust 16 \<le> 96
   \<and> \<not> mem_grant full_heap (mem_brk full_heap) (unat (adjust 16))
   \<and> mm_malloc full_heap 16 = Some (payload 4192, place full_heap 4192 32)"
  using fast_path_failure_falls_through [of 16 full_heap] full_heap_refuses
  by (simp add: adjust_16 full_heap_find_fit NULL_def)

theorem mm_malloc_flow_witness:
  "unat (16 :: 64 word) + 23 < 2 ^ 32
   \<and> mm_malloc full_heap 16 = alloc_spec full_heap (unat (16 :: 64 word))"
  using mm_malloc_flow [of 16 full_heap] by simp

theorem mm_init_state_witness:
  "mem_grant (fresh_heap 69720) (mem_brk (fresh_heap 69720)) 88
   \<and> mem_grant (fresh_heap 69720) (mem_brk (fresh_heap 69720) + 88) CHUNKSIZE
   \<and> unat (mem_brk (fresh_heap 69720)) + (88 + CHUNKSIZE) < 2 ^ 64
   \<and> mm_init (fresh_heap 69720) = Inr (0, init_state (fresh_heap 69720))
   \<and> prologue (init_state (fresh_heap 69720)) = 4184
   \<and> heap_walk (init_state (fresh_heap 69720)) 4184 (Suc (Suc (Suc 0)))
        = Some [(4184, 8, True), (4192, 65520, False), (69712, 0, True)]"
proof -
  have a: "mem_grant (fresh_heap 69720) (mem_brk (fresh_heap 69720)) 88"
    and b: "mem_grant (fresh_heap 69720) (mem_brk (fresh_heap 69720) + 88) CHUNKSIZE"
    and c: "unat (mem_brk (fresh_heap 69720)) + (88 + CHUNKSIZE) < 2 ^ 64"
    by (simp_all add: fresh_heap_def CHUNKSIZE_def)
  have d: "mem_brk (fresh_heap 69720) = 4096" by (simp add: fresh_heap_def)
  from mm_init_state [OF a b c] a b c show ?thesis
    by (simp add: d CHUNKSIZE_def HEADER_SIZE_def OVERHEAD_def)
qed




lemmas slot_eval = slot_set_allocated_def slot_set_block_size_def slot_block_size_def
  slot_allocated_def mask_eq_exp_minus_1 set_bit_0 unset_bit_0

lemma roomy_extend:
  "extend_heap roomy_heap 4 False =
     (69712, \<lparr>mem =
         (\<lambda>_. 0)
         (4104 := 0, 4112 := 0, 4120 := 0, 4128 := 0, 4136 := 0, 4144 := 0,
            4152 := 0, 4160 := 0, 4168 := 0, 4184 := 17, 4192 := 131040,
            4200 := 0, 4208 := 0, 69704 := 131040, 4176 := 4192, 69712 := 64,
            69736 := 64, 69744 := 1, 4096 := 69712, 69728 := 0, 69720 := 0),
         segListHead = 4096, prologue = 4184, mem_brk = 69752,
         mem_grant = \<lambda>b n. unat b + n \<le> 200000\<rparr>)"
  by (simp add: extend_heap_def roomy_heap_eq eval_defs size_index_32 list_push_def
        slot_eval cong: let_weak_cong)

lemma roomy_place:
  "place (\<lparr>mem =
         (\<lambda>_. 0)
         (4104 := 0, 4112 := 0, 4120 := 0, 4128 := 0, 4136 := 0, 4144 := 0,
            4152 := 0, 4160 := 0, 4168 := 0, 4184 := 17, 4192 := 131040,
            4200 := 0, 4208 := 0, 69704 := 131040, 4176 := 4192, 69712 := 64,
            69736 := 64, 69744 := 1, 4096 := 69712, 69728 := 0, 69720 := 0),
         segListHead = 4096, prologue = 4184, mem_brk = 69752,
         mem_grant = \<lambda>b n. unat b + n \<le> 200000\<rparr>) 69712 32 =
     \<lparr>mem =
        (\<lambda>_. 0)
        (4104 := 0, 4112 := 0, 4120 := 0, 4128 := 0, 4136 := 0, 4144 := 0,
           4152 := 0, 4160 := 0, 4168 := 0, 4184 := 17, 4192 := 131040,
           4200 := 0, 4208 := 0, 69704 := 131040, 4176 := 4192, 69744 := 1,
           69728 := 0, 69720 := 0, 4096 := 0, 69712 := 65, 69736 := 65),
        segListHead = 4096, prologue = 4184, mem_brk = 69752,
        mem_grant = \<lambda>b n. unat b + n \<le> 200000\<rparr>"
  by (simp add: place_def eval_defs size_index_32 list_pop_def slot_eval cong: let_weak_cong)

text \<open>
  C7 at the request \<open>2 ^ 32\<close>: the 32-bit \<open>asize\<close> keeps only the low 32 bits of
  \<open>align8 (size + OVERHEAD)\<close>, which is 16 and is raised to 32. The fast path grows the heap
  by 32 bytes and returns the payload of a 32-byte block: 16 bytes for a request of \<open>2 ^ 32\<close>.
\<close>

theorem mm_malloc_truncates:
  "map_option (\<lambda>(p, t). (p, block_size t (p - 8), allocated t (p - 8), mem_brk t - mem_brk roomy_heap))
     (mm_malloc roomy_heap 4294967296) = Some (69720, 32, True, 32)"
proof -
  have "mm_malloc roomy_heap 4294967296 = Some (69720,
     \<lparr>mem =
        (\<lambda>_. 0)
        (4104 := 0, 4112 := 0, 4120 := 0, 4128 := 0, 4136 := 0, 4144 := 0,
           4152 := 0, 4160 := 0, 4168 := 0, 4184 := 17, 4192 := 131040,
           4200 := 0, 4208 := 0, 69704 := 131040, 4176 := 4192, 69744 := 1,
           69728 := 0, 69720 := 0, 4096 := 0, 69712 := 65, 69736 := 65),
        segListHead = 4096, prologue = 4184, mem_brk = 69752,
        mem_grant = \<lambda>b n. unat b + n \<le> 200000\<rparr>)"
    by (simp add: mm_malloc_def adjust_huge drop_bit_eq_div roomy_extend roomy_place NULL_def
        payload_def)
  then show ?thesis
    by (simp add: roomy_heap_eq block_size_def allocated_def slot_eval)
qed

text \<open>
  C4. \<open>mm_realloc\<close> first calls \<open>mm_malloc\<close> for the new size. A \<open>NULL\<close> result ends
  the process with the diagnostic and \<open>exit(1)\<close>; it is never returned. Otherwise
  \<open>min size old_block_size\<close> bytes are copied from the old payload to the new one, where
  \<open>old_block_size\<close> is the \<open>block_size\<close> field of the old header (the whole block, header
  and footer included), the old block is freed and the new payload is returned.
\<close>

theorem mm_realloc_flow:
  "mm_realloc s ptr usize =
     (case mm_malloc s usize of
        None \<Rightarrow> None
      | Some (newp, s1) \<Rightarrow>
          if newp = NULL then Some (Inl (Exit realloc_diagnostic 1))
          else Some (Inr (newp,
                 mm_free (s1\<lparr>mem := memcpy (mem s1) newp ptr
                                      (min (unat usize) (block_size s1 (ptr - 8)))\<rparr>) ptr)))
   \<and> mm_realloc s ptr usize \<noteq> Some (Inr (NULL, s'))"
proof -
  have bs: "block_size s1 (ptr - 8) < 2 ^ 64" for s1
    using slot_block_size_less [of "mem s1 (ptr - 8)"] by (simp add: block_size_def)
  have "unat (if usize < word_of_nat (block_size s1 (ptr - 8)) then usize
              else word_of_nat (block_size s1 (ptr - 8)))
        = min (unat usize) (block_size s1 (ptr - 8))" for s1
    using bs [of s1] by (simp add: word_less_nat_alt unat_of_nat min_def)
  then show ?thesis
    by (auto simp: mm_realloc_def Let_def split: option.splits prod.splits)
qed

section \<open>Pushing onto and popping from a free list\<close>

lemma mem_store [simp]: "mem (store s c v) = (mem s)(c := v)"
  by (simp add: store_def)

lemma seg_append:
  "seg s p h (ys @ zs) t \<longleftrightarrow> (\<exists>m. seg s p h ys m \<and> seg s (last (p # ys)) m zs t)"
  by (induction ys arbitrary: p h) auto

lemma seg_cong:
  "(\<And>x. x \<in> set xs \<Longrightarrow> mem s' (x + 8) = mem s (x + 8) \<and> mem s' (x + 16) = mem s (x + 16))
   \<Longrightarrow> seg s' p h xs t = seg s p h xs t"
  by (induction xs arbitrary: p h) (auto simp: body_next_def body_prev_def)

lemma seg_last_next:
  "seg s p h (ys @ [y]) t \<Longrightarrow> body_next s y = t"
  by (induction ys arbitrary: p h) auto

lemma seg_NULL_t: "seg s p h xs t \<Longrightarrow> NULL \<notin> set xs"
  by (induction xs arbitrary: p h) auto

lemma seg_head: "seg s p h (x # xs) t \<Longrightarrow> h = x"
  by simp

lemmas link_defs = body_next_def body_prev_def set_next_def set_prev_def set_head_def head_def

lemma head_slot_lists [simp]:
  "head_slot (list_push s b i) j = head_slot s j"
  "head_slot (list_pop s b i) j = head_slot s j"
  by (simp_all add: head_slot_def)

lemma list_push_mem:
  "mem (list_push s b i) =
     (if head s i = NULL
      then (mem s)(head_slot s i := b, b + 16 := NULL, b + 8 := NULL)
      else (let m1 = (mem s)(b + 8 := head s i, b + 16 := NULL)
            in m1(m1 (head_slot s i) + 16 := b, head_slot s i := b)))"
  by (simp add: list_push_def link_defs Let_def)

lemma list_push_dll:
  assumes d: "dll s (head s i) xs" and ap: "apart (b # xs)" and nn: "b \<noteq> NULL"
    and hs: "\<forall>x\<in>set (b # xs). head_slot s i \<notin> links x"
  shows "dll (list_push s b i) (head (list_push s b i) i) (b # xs)"
proof (cases xs)
  case Nil
  then have "head s i = NULL" using d by (simp add: dll_def)
  then show ?thesis
    using Nil nn hs
    by (simp add: dll_def list_push_mem head_def body_next_def body_prev_def links_def)
next
  case (Cons y ys)
  with d have hy: "head s i = y" and yn: "y \<noteq> NULL" and py: "body_prev s y = NULL"
    and rest: "seg s y (body_next s y) ys NULL"
    by (simp_all add: dll_def)
  have by': "b \<noteq> y" using ap Cons by (auto simp: apart_def)
  have l: "links b \<inter> links y = {}" using ap Cons by' by (auto simp: apart_def)
  have hsb: "head_slot s i \<noteq> b + 8" "head_slot s i \<noteq> b + 16"
    "head_slot s i \<noteq> y + 8" "head_slot s i \<noteq> y + 16"
    using hs Cons by (auto simp: links_def)
  have m: "mem (list_push s b i) = (mem s)(b + 8 := y, b + 16 := NULL, y + 16 := b, head_slot s i := b)"
    using hy yn hsb by (simp add: list_push_mem Let_def head_def)
  have fr: "seg (list_push s b i) y (body_next s y) ys NULL = seg s y (body_next s y) ys NULL"
  proof (rule seg_cong)
    fix x assume x: "x \<in> set ys"
    then have "x \<noteq> b" "x \<noteq> y" using ap Cons by (auto simp: apart_def)
    moreover have "links x \<inter> links b = {}" "links x \<inter> links y = {}"
      using ap Cons x \<open>x \<noteq> b\<close> \<open>x \<noteq> y\<close> by (auto simp: apart_def)
    moreover have "head_slot s i \<notin> links x" using hs Cons x by simp
    ultimately show "mem (list_push s b i) (x + 8) = mem s (x + 8) \<and>
        mem (list_push s b i) (x + 16) = mem s (x + 16)"
      by (auto simp: m links_def)
  qed
  have "body_next (list_push s b i) y = body_next s y"
    using l hsb by (auto simp: m body_next_def links_def)
  moreover have "body_next (list_push s b i) b = y"
    using l hsb by (auto simp: m body_next_def links_def)
  moreover have "body_prev (list_push s b i) b = NULL"
    using l hsb by' by (auto simp: m body_prev_def links_def)
  moreover have "body_prev (list_push s b i) y = b"
    using l hsb by (auto simp: m body_prev_def links_def)
  moreover have "head (list_push s b i) i = b"
    by (simp add: head_def m list_push_globals head_slot_def)
  ultimately show ?thesis
    using Cons nn yn rest fr by (simp add: dll_def)
qed

lemma list_push_frame:
  assumes "c \<noteq> head_slot s i" "c \<notin> links b" "head_slot s i \<notin> links b"
    and "head s i \<noteq> NULL \<longrightarrow> c \<noteq> head s i + 16"
  shows "mem (list_push s b i) c = mem s c"
  using assms by (auto simp: list_push_mem Let_def links_def head_def)

lemma list_pop_mem:
  "mem (list_pop s x i) =
     (if body_prev s x = NULL \<and> body_next s x = NULL then (mem s)(head_slot s i := NULL)
      else if head s i = x then
        (let m1 = (mem s)(head_slot s i := body_next s x) in m1(m1 (x + 8) + 16 := NULL))
      else if body_next s x = NULL then (mem s)(body_prev s x + 8 := NULL)
      else
        (let m1 = (mem s)(body_next s x + 16 := body_prev s x)
         in m1(m1 (x + 16) + 8 := m1 (x + 8))))"
  by (simp add: list_pop_def link_defs Let_def)

lemma apart_links:
  "apart xs \<Longrightarrow> x \<in> set xs \<Longrightarrow> y \<in> set xs \<Longrightarrow> x \<noteq> y \<Longrightarrow>
     x + 8 \<noteq> y + 16 \<and> x + 16 \<noteq> y + 8 \<and> x + 8 \<noteq> y + 8 \<and> x + 16 \<noteq> y + 16"
  by (auto simp: apart_def links_def)

lemma seg_split:
  assumes "seg s NULL h (ys @ x # zs) NULL"
  shows "seg s NULL h ys x" "x \<noteq> NULL" "body_prev s x = last (NULL # ys)"
    "seg s x (body_next s x) zs NULL"
  using assms by (auto simp: seg_append)

lemma seg_last_nonnull: "seg s p h ys t \<Longrightarrow> ys \<noteq> [] \<Longrightarrow> last ys \<noteq> NULL"
  by (induction ys arbitrary: p h) (auto split: if_splits)

lemma seg_hd: "seg s p h ys t \<Longrightarrow> ys \<noteq> [] \<Longrightarrow> h = hd ys"
  by (cases ys) auto

lemma seg_next_empty: "seg s p h [] t \<Longrightarrow> h = t"
  by simp

lemma list_pop_shape:
  assumes d: "dll s (head s i) (ys @ x # zs)" and ap: "apart (ys @ x # zs)"
    and hs: "\<forall>y\<in>set (ys @ x # zs). head_slot s i \<notin> links y"
  shows "mem (list_pop s x i) =
     (if ys = [] \<and> zs = [] then (mem s)(head_slot s i := NULL)
      else if ys = [] then (mem s)(head_slot s i := hd zs, hd zs + 16 := NULL)
      else if zs = [] then (mem s)(last ys + 8 := NULL)
      else (mem s)(hd zs + 16 := last ys, last ys + 8 := hd zs))"
proof -
  note sp = seg_split [OF d [unfolded dll_def]]
  have xnotin: "x \<notin> set ys" "x \<notin> set zs" using ap by (auto simp: apart_def)
  have prev: "body_prev s x = NULL \<longleftrightarrow> ys = []"
    using sp(3) seg_last_nonnull [OF sp(1)] by auto
  have nxt: "body_next s x = (if zs = [] then NULL else hd zs)"
    using sp(4) by (cases zs) auto
  have nxt0: "body_next s x = NULL \<longleftrightarrow> zs = []"
    using sp(4) by (cases zs) auto
  have hd: "head s i = x \<longleftrightarrow> ys = []"
    using seg_hd [OF sp(1)] sp(1) xnotin by (cases ys) auto
  have pv: "ys \<noteq> [] \<Longrightarrow> body_prev s x = last ys" using sp(3) by simp
  have hsx: "head_slot s i \<noteq> x + 8" "head_slot s i \<noteq> x + 16"
    using hs by (auto simp: links_def)
  show ?thesis
  proof (cases "ys = []")
    case True
    then show ?thesis using prev nxt nxt0 hd hsx
      by (auto simp: list_pop_mem Let_def body_next_def)
  next
    case False
    show ?thesis
    proof (cases "zs = []")
      case True
      then show ?thesis using False prev nxt nxt0 hd pv by (auto simp: list_pop_mem Let_def)
    next
      case zn: False
      have "hd zs \<in> set (ys @ x # zs)" "x \<in> set (ys @ x # zs)" "hd zs \<noteq> x"
        using zn xnotin by (auto simp: hd_in_set)
      from apart_links [OF ap this(1,2,3)]
      have "hd zs + 16 \<noteq> x + 8" "hd zs + 16 \<noteq> x + 16" by auto
      then show ?thesis using False zn prev nxt nxt0 hd pv
        by (auto simp: list_pop_mem Let_def body_next_def body_prev_def)
    qed
  qed
qed

lemma list_pop_frame_split:
  assumes d: "dll s (head s i) (ys @ x # zs)" and ap: "apart (ys @ x # zs)"
    and hs: "\<forall>y\<in>set (ys @ x # zs). head_slot s i \<notin> links y"
    and c: "c \<noteq> head_slot s i" "\<forall>y\<in>set (ys @ zs). c \<notin> links y"
  shows "mem (list_pop s x i) c = mem s c"
proof -
  have "zs \<noteq> [] \<Longrightarrow> c \<noteq> hd zs + 16" using c(2) by (cases zs) (auto simp: links_def)
  moreover have "ys \<noteq> [] \<Longrightarrow> c \<noteq> last ys + 8"
    using c(2) by (cases ys rule: rev_cases) (auto simp: links_def)
  ultimately show ?thesis
    using c(1) by (auto simp: list_pop_shape [OF d ap hs])
qed

lemma list_pop_dll_split:
  assumes d: "dll s (head s i) (ys @ x # zs)" and ap: "apart (ys @ x # zs)"
    and hs: "\<forall>y\<in>set (ys @ x # zs). head_slot s i \<notin> links y"
  shows "dll (list_pop s x i) (head (list_pop s x i) i) (ys @ zs)"
proof -
  let ?s = "list_pop s x i"
  note sp = seg_split [OF d [unfolded dll_def]]
  note m = list_pop_shape [OF d ap hs]
  have fr: "\<And>c. c \<noteq> head_slot s i \<Longrightarrow> \<forall>y\<in>set (ys @ zs). c \<notin> links y \<Longrightarrow> mem ?s c = mem s c"
    by (rule list_pop_frame_split [OF d ap hs])
  have A: "\<And>u v. u \<in> set (ys @ zs) \<Longrightarrow> v \<in> set (ys @ zs) \<Longrightarrow> u \<noteq> v \<Longrightarrow>
     u + 8 \<noteq> v + 16 \<and> u + 16 \<noteq> v + 8 \<and> u + 8 \<noteq> v + 8 \<and> u + 16 \<noteq> v + 16"
    using apart_links [OF ap] by auto
  have H: "\<And>u. u \<in> set (ys @ zs) \<Longrightarrow> head_slot s i \<noteq> u + 8 \<and> head_slot s i \<noteq> u + 16"
    using hs by (auto simp: links_def)
  have dist: "distinct (ys @ zs)" using ap by (auto simp: apart_def)
  show ?thesis
  proof (cases ys rule: rev_cases)
    case Nil
    show ?thesis
    proof (cases zs)
      case Nil
      then show ?thesis using \<open>ys = []\<close> by (simp add: dll_def head_def m)
    next
      case (Cons z zs')
      have z: "body_next s x = z" "z \<noteq> NULL" "seg s z (body_next s z) zs' NULL"
        using sp(4) Cons by auto
      have "seg ?s z (body_next s z) zs' NULL = seg s z (body_next s z) zs' NULL"
      proof (rule seg_cong)
        fix w assume "w \<in> set zs'"
        then have "w \<in> set (ys @ zs)" "w \<noteq> z" using Cons dist by auto
        then show "mem ?s (w + 8) = mem s (w + 8) \<and> mem ?s (w + 16) = mem s (w + 16)"
          using A [of w z] H [of w] Cons Nil \<open>ys = []\<close> by (auto simp: m)
      qed
      moreover have "body_next ?s z = body_next s z"
        using H [of z] Cons by (auto simp: m \<open>ys = []\<close> body_next_def)
      moreover have "body_prev ?s z = NULL" "head ?s i = z"
        using H [of z] Cons by (auto simp: m \<open>ys = []\<close> body_prev_def head_def)
      ultimately show ?thesis using z Cons \<open>ys = []\<close> by (simp add: dll_def)
    qed
  next
    case (snoc ys' y)
    from sp(1) snoc have y: "seg s NULL (head s i) ys' y" "y \<noteq> NULL"
      "body_prev s y = last (NULL # ys')" "body_next s y = x"
      by (auto simp: seg_append)
    have hd: "head ?s i = head s i"
      using H [of y] H [of "hd zs"] snoc by (cases zs) (auto simp: m head_def)
    have yin: "y \<in> set (ys @ zs)" using snoc by simp
    have segys: "seg ?s NULL (head s i) ys' y = seg s NULL (head s i) ys' y"
    proof (rule seg_cong)
      fix w assume "w \<in> set ys'"
      then have w: "w \<in> set (ys @ zs)" "w \<noteq> y" using snoc dist by auto
      have "zs \<noteq> [] \<Longrightarrow> w \<noteq> hd zs" using w(1) dist \<open>w \<in> set ys'\<close> snoc by (cases zs) auto
      then show "mem ?s (w + 8) = mem s (w + 8) \<and> mem ?s (w + 16) = mem s (w + 16)"
        using A [of w y] A [of w "hd zs"] w yin snoc by (cases zs) (auto simp: m)
    qed
    have py: "body_prev ?s y = body_prev s y"
      using A [of y "hd zs"] yin snoc dist by (cases zs) (auto simp: m body_prev_def)
    show ?thesis
    proof (cases zs)
      case Nil
      have "body_next ?s y = NULL" using snoc Nil by (simp add: m body_next_def)
      then show ?thesis
        using y segys py hd snoc Nil by (auto simp: dll_def seg_append)
    next
      case (Cons z zs')
      have z: "body_next s x = z" "z \<noteq> NULL" "seg s z (body_next s z) zs' NULL"
        using sp(4) Cons by auto
      have zin: "z \<in> set (ys @ zs)" "z \<noteq> y" using Cons snoc dist by auto
      have segzs: "seg ?s z (body_next s z) zs' NULL = seg s z (body_next s z) zs' NULL"
      proof (rule seg_cong)
        fix w assume "w \<in> set zs'"
        then have w: "w \<in> set (ys @ zs)" "w \<noteq> z" "w \<noteq> y" using Cons snoc dist by auto
        then show "mem ?s (w + 8) = mem s (w + 8) \<and> mem ?s (w + 16) = mem s (w + 16)"
          using A [of w y] A [of w z] yin zin snoc Cons by (auto simp: m)
      qed
      have "body_next ?s y = z" using snoc Cons by (simp add: m body_next_def)
      moreover have "body_prev ?s z = y"
        using A [of z y] yin zin snoc Cons by (auto simp: m body_prev_def)
      moreover have "body_next ?s z = body_next s z"
        using A [of z y] yin zin snoc Cons by (auto simp: m body_next_def)
      ultimately show ?thesis
        using y z segys segzs py hd snoc Cons by (auto simp: dll_def seg_append)
    qed
  qed
qed

section \<open>The geometry of the block list\<close>

lemma adr_inj: "x < 2 ^ 64 \<Longrightarrow> y < 2 ^ 64 \<Longrightarrow> (adr x = adr y) = (x = y)"
proof
  assume "adr x = adr y"
  then have "unat (word_of_nat x :: addr) = unat (word_of_nat y :: addr)" by (simp add: adr_def)
  then show "x = y" if "x < 2 ^ 64" "y < 2 ^ 64" using that by (simp add: unat_of_nat)
qed simp

lemma adr_unat [simp]: "adr (unat w) = w"
  by (simp add: adr_def)

lemma unat_adr: "x < 2 ^ 64 \<Longrightarrow> unat (adr x) = x"
  by (simp add: adr_def unat_of_nat)

lemma adr_add: "adr x + word_of_nat n = adr (x + n)" "adr x + 8 = adr (x + 8)" "adr x + 16 = adr (x + 16)"
  by (simp_all add: adr_def)

lemma adr_sub: "8 \<le> x \<Longrightarrow> adr x - 8 = adr (x - 8)"
  by (simp add: adr_def)

lemma adr_0: "adr 0 = NULL"
  by (simp add: adr_def NULL_def)

lemma contig_append:
  "contig a (xs @ ys) e \<longleftrightarrow> (\<exists>m. contig a xs m \<and> contig m ys e)"
  by (induction xs arbitrary: a) auto

lemma contig_le: "contig a bl e \<Longrightarrow> a \<le> e"
proof (induction bl arbitrary: a)
  case Nil
  then show ?case by simp
next
  case (Cons x bl)
  obtain c m cl where x: "x = (c, m, cl)" by (cases x)
  with Cons.prems have "contig (a + m) bl e" by simp
  from Cons.IH [OF this] show ?case by simp
qed

lemma contig_bounds:
  "contig a bl e \<Longrightarrow> (b, n, al) \<in> set bl \<Longrightarrow> a \<le> b \<and> b + n \<le> e \<and> 32 \<le> n \<and> 8 dvd n"
proof (induction bl arbitrary: a)
  case Nil
  then show ?case by simp
next
  case (Cons x bl)
  obtain c m cl where x: "x = (c, m, cl)" by (cases x)
  with Cons.prems have c: "c = a" "32 \<le> m" "8 dvd m" "contig (a + m) bl e" by auto
  show ?case
  proof (cases "(b, n, al) = x")
    case True
    then show ?thesis using x c contig_le [OF c(4)] by auto
  next
    case False
    then have "(b, n, al) \<in> set bl" using Cons.prems by auto
    from Cons.IH [OF c(4) this] show ?thesis by simp
  qed
qed

lemma contig_disjoint:
  "contig a bl e \<Longrightarrow> (b, n, al) \<in> set bl \<Longrightarrow> (b', n', al') \<in> set bl \<Longrightarrow>
     (b, n, al) = (b', n', al') \<or> b + n \<le> b' \<or> b' + n' \<le> b"
proof (induction bl arbitrary: a)
  case Nil
  then show ?case by simp
next
  case (Cons x bl)
  obtain c m cl where x: "x = (c, m, cl)" by (cases x)
  from Cons.prems x have c: "c = a" "contig (a + m) bl e" by auto
  show ?case
  proof (cases "(b, n, al) = x")
    case True
    show ?thesis
    proof (cases "(b', n', al') = x")
      case True
      with \<open>(b, n, al) = x\<close> show ?thesis by simp
    next
      case False
      then have "(b', n', al') \<in> set bl" using Cons.prems by auto
      from contig_bounds [OF c(2) this] True x c show ?thesis by auto
    qed
  next
    case False
    then have in1: "(b, n, al) \<in> set bl" using Cons.prems by auto
    show ?thesis
    proof (cases "(b', n', al') = x")
      case True
      from contig_bounds [OF c(2) in1] True x c show ?thesis by auto
    next
      case False
      then have "(b', n', al') \<in> set bl" using Cons.prems by auto
      from Cons.IH [OF c(2) in1 this] show ?thesis .
    qed
  qed
qed

lemma contig_unique:
  "contig a bl e \<Longrightarrow> (b, n, al) \<in> set bl \<Longrightarrow> (b, n', al') \<in> set bl \<Longrightarrow> n' = n \<and> al' = al"
  using contig_disjoint [of a bl e b n al b n' al'] contig_bounds [of a bl e b n al]
    contig_bounds [of a bl e b n' al'] by auto

section \<open>Writes of the list operations leave the tags alone\<close>

lemma block_size_store:
  "block_size (store s c v) a = (if a = c then slot_block_size v else block_size s a)"
  by (simp add: block_size_def)

lemma allocated_store:
  "allocated (store s c v) a = (if a = c then slot_allocated v else allocated s a)"
  by (simp add: allocated_def)

lemma tag_reads [simp]:
  "block_size (set_block_size s c m) a = (if a = c then m mod 2 ^ 31 else block_size s a)"
  "allocated (set_block_size s c m) a = allocated s a"
  "block_size (set_allocated s c v) a = block_size s a"
  "allocated (set_allocated s c v) a = (if a = c then v else allocated s a)"
  by (simp_all add: set_block_size_def set_allocated_def block_size_def allocated_def)

lemma tag_writes_mem:
  "a \<noteq> c \<Longrightarrow> mem (set_block_size s c m) a = mem s a"
  "a \<noteq> c \<Longrightarrow> mem (set_allocated s c v) a = mem s a"
  by (simp_all add: set_block_size_def set_allocated_def)

lemma tags_cong:
  "mem s' (adr b) = mem s (adr b) \<Longrightarrow> mem s' (adr (b + n - 8)) = mem s (adr (b + n - 8))
   \<Longrightarrow> tags s' (b, n, al) = tags s (b, n, al)"
  by (simp add: tags_def block_size_def allocated_def)

lemma head_slot_adr:
  "head_slot s (int k) = adr (unat (segListHead s) + 8 * k)"
  by (simp add: head_slot_def adr_def)

lemma layoutD:
  assumes "layout s bl"
  shows "unat (prologue s) = unat (segListHead s) + 88"
    and "unat (prologue s) + 16 \<le> unat (mem_brk s)"
    and "unat (mem_brk s) - unat (segListHead s) < 2 ^ 31"
    and "contig (unat (prologue s) + 8) bl (unat (mem_brk s) - 8)"
    and "block_size s (prologue s) = 8" and "allocated s (prologue s)"
    and "block_size s (adr (unat (mem_brk s) - 8)) = 0"
    and "allocated s (adr (unat (mem_brk s) - 8))"
    and "list_all (tags s) bl"
  using assms unfolding layout_def Let_def by blast+

lemma layoutI:
  assumes "unat (prologue s) = unat (segListHead s) + 88"
    and "unat (prologue s) + 16 \<le> unat (mem_brk s)"
    and "unat (mem_brk s) - unat (segListHead s) < 2 ^ 31"
    and "contig (unat (prologue s) + 8) bl (unat (mem_brk s) - 8)"
    and "block_size s (prologue s) = 8" and "allocated s (prologue s)"
    and "block_size s (adr (unat (mem_brk s) - 8)) = 0"
    and "allocated s (adr (unat (mem_brk s) - 8))"
    and "list_all (tags s) bl"
  shows "layout s bl"
  using assms unfolding layout_def Let_def by blast

lemma layout_geom:
  assumes "layout s bl" "(b, n, al) \<in> set bl"
  shows "unat (segListHead s) + 96 \<le> b" "b + n + 8 \<le> unat (mem_brk s)" "32 \<le> n" "8 dvd n"
    "b + n < 2 ^ 64" "n < 2 ^ 31"
proof -
  let ?H = "unat (segListHead s)" and ?P = "unat (prologue s)" and ?B = "unat (mem_brk s)"
  note P = layoutD(1-3) [OF assms(1)] and c = layoutD(4) [OF assms(1)]
  from contig_bounds [OF c assms(2)] P
  show "?H + 96 \<le> b" "b + n + 8 \<le> ?B" "32 \<le> n" "8 dvd n" by auto
  have "?B < 2 ^ 64" using unsigned_less [of "mem_brk s"] by simp
  then show "b + n < 2 ^ 64" using \<open>b + n + 8 \<le> ?B\<close> by simp
  show "n < 2 ^ 31" using \<open>b + n + 8 \<le> ?B\<close> \<open>?H + 96 \<le> b\<close> P(3) by simp
qed

lemma layout_tags_not_list_slots:
  assumes l: "layout s bl" and m: "(b, n, al) \<in> set bl"
  shows "adr b \<notin> head_slots s" "adr b \<notin> link_slots bl"
    "adr (b + n - 8) \<notin> head_slots s" "adr (b + n - 8) \<notin> link_slots bl"
proof -
  note g = layout_geom [OF l m]
  have lt: "unat (segListHead s) + 8 * k < 2 ^ 64" if "k < 11" for k
    using that g by simp
  show "adr b \<notin> head_slots s"
  proof
    assume "adr b \<in> head_slots s"
    then obtain k where k: "k < 11" "adr b = adr (unat (segListHead s) + 8 * k)"
      by (auto simp: head_slots_def head_slot_adr)
    then have "b = unat (segListHead s) + 8 * k" using g lt [of k] by (simp add: adr_inj)
    then show False using g k by simp
  qed
  show "adr (b + n - 8) \<notin> head_slots s"
  proof
    assume "adr (b + n - 8) \<in> head_slots s"
    then obtain k where k: "k < 11" "adr (b + n - 8) = adr (unat (segListHead s) + 8 * k)"
      by (auto simp: head_slots_def head_slot_adr)
    then have "b + n - 8 = unat (segListHead s) + 8 * k" using g lt [of k] by (simp add: adr_inj)
    then show False using g k by simp
  qed
  note c = layoutD(4) [OF l]
  have ns: "adr x \<notin> link_slots bl" if x: "x = b \<or> x = b + n - 8" for x
  proof
    assume "adr x \<in> link_slots bl"
    then obtain b' n' al' where m': "(b', n', al') \<in> set bl" and "adr x \<in> links (adr b')"
      by (auto simp: link_slots_def)
    then have "adr x = adr (b' + 8) \<or> adr x = adr (b' + 16)"
      by (auto simp: links_def adr_add)
    moreover note g' = layout_geom [OF l m']
    ultimately have e: "x = b' + 8 \<or> x = b' + 16"
      using g x by (auto simp: adr_inj)
    from contig_disjoint [OF c m m'] show False using e x g g' by auto
  qed
  show "adr b \<notin> link_slots bl" "adr (b + n - 8) \<notin> link_slots bl" using ns by auto
qed

lemma layout_sentinels_not_list_slots:
  assumes l: "layout s bl"
  shows "prologue s \<notin> head_slots s" "prologue s \<notin> link_slots bl"
    "adr (unat (mem_brk s) - 8) \<notin> head_slots s" "adr (unat (mem_brk s) - 8) \<notin> link_slots bl"
proof -
  let ?H = "unat (segListHead s)" and ?P = "unat (prologue s)" and ?B = "unat (mem_brk s)"
  note P = layoutD(1-3) [OF l]
  have B: "?B < 2 ^ 64" using unsigned_less [of "mem_brk s"] by simp
  have pr: "prologue s = adr ?P" by simp
  have hs: "x \<notin> head_slots s" if "x = adr y" "?H + 88 \<le> y" "y < 2 ^ 64" for x y
  proof
    assume "x \<in> head_slots s"
    then have "adr y \<in> head_slots s" using that(1) by simp
    then obtain k where k: "k < 11" "adr y = adr (?H + 8 * k)"
      by (auto simp: head_slots_def head_slot_adr)
    then have "y = ?H + 8 * k" using that B P by (simp add: adr_inj)
    then show False using that k by simp
  qed
  show "prologue s \<notin> head_slots s" using hs [OF pr] P B by simp
  show "adr (?B - 8) \<notin> head_slots s" using hs [OF refl, of "?B - 8"] P B by simp
  have ls: "x \<notin> link_slots bl" if "x = adr y" "y < ?P + 8 \<or> ?B - 8 \<le> y" "y < 2 ^ 64" for x y
  proof
    assume "x \<in> link_slots bl"
    then have "adr y \<in> link_slots bl" using that(1) by simp
    then obtain b' n' al' where m': "(b', n', al') \<in> set bl" and "adr y \<in> links (adr b')"
      by (auto simp: link_slots_def)
    then have "adr y = adr (b' + 8) \<or> adr y = adr (b' + 16)"
      by (auto simp: links_def adr_add)
    moreover note g' = layout_geom [OF l m']
    ultimately have e: "y = b' + 8 \<or> y = b' + 16"
      using that by (auto simp: adr_inj)
    then show False using that g' P by auto
  qed
  show "prologue s \<notin> link_slots bl" using ls [OF pr] P B by simp
  show "adr (?B - 8) \<notin> link_slots bl" using ls [OF refl, of "?B - 8"] P B by simp
qed

lemma layout_frame:
  assumes l: "layout s bl"
    and g: "segListHead s' = segListHead s" "prologue s' = prologue s" "mem_brk s' = mem_brk s"
    and f: "\<And>c. c \<notin> head_slots s \<Longrightarrow> c \<notin> link_slots bl \<Longrightarrow> mem s' c = mem s c"
  shows "layout s' bl"
proof -
  have t: "tags s' x = tags s x" if "x \<in> set bl" for x
  proof -
    obtain b n al where x: "x = (b, n, al)" by (cases x)
    from layout_tags_not_list_slots [OF l that [unfolded x]] show ?thesis
      unfolding x by (intro tags_cong f) auto
  qed
  then have "list_all (tags s') bl = list_all (tags s) bl"
    by (simp add: list_all_iff)
  moreover have "mem s' (prologue s) = mem s (prologue s)"
    "mem s' (adr (unat (mem_brk s) - 8)) = mem s (adr (unat (mem_brk s) - 8))"
    using layout_sentinels_not_list_slots [OF l] by (auto intro: f)
  ultimately show ?thesis
    using layoutD [OF l] g by (intro layoutI) (simp_all add: block_size_def allocated_def)
qed

lemma blocks_apart:
  assumes l: "layout s bl" and x: "(x, n, al) \<in> set bl" and y: "(y, m, al') \<in> set bl"
    and ne: "x \<noteq> y"
  shows "adr x \<noteq> adr y" "links (adr x) \<inter> links (adr y) = {}"
proof -
  note gx = layout_geom [OF l x] and gy = layout_geom [OF l y]
  from contig_disjoint [OF layoutD(4) [OF l] x y] ne
  have d: "x + n \<le> y \<or> y + m \<le> x" by auto
  show "adr x \<noteq> adr y" using ne gx gy by (simp add: adr_inj)
  show "links (adr x) \<inter> links (adr y) = {}"
    using d gx gy by (auto simp: links_def adr_add adr_inj)
qed

lemma block_links_not_heads:
  assumes l: "layout s bl" and x: "(x, n, al) \<in> set bl" and k: "k < 11"
  shows "head_slot s (int k) \<notin> links (adr x)"
proof -
  note gx = layout_geom [OF l x]
  have "unat (segListHead s) + 8 * k < 2 ^ 64" using gx k by simp
  then show ?thesis
    using gx k by (auto simp: links_def adr_add adr_inj head_slot_adr)
qed

lemma head_slots_distinct:
  assumes l: "layout s bl" and k: "k < 11" "k' < 11" "k \<noteq> k'"
  shows "head_slot s (int k) \<noteq> head_slot s (int k')"
proof -
  have "unat (prologue s) < 2 ^ 64" using unsigned_less [of "prologue s"] by simp
  then have "unat (segListHead s) + 88 < 2 ^ 64" using layoutD(1) [OF l] by simp
  then show ?thesis using k by (simp add: head_slot_adr adr_inj)
qed

lemma listsD:
  assumes "lists s bl fl" "k < 11"
  shows "dll s (head s (int k)) (map adr (fl k))" "distinct (fl k)"
    "\<And>x. x \<in> set (fl k) \<Longrightarrow> \<exists>n. (x, n, False) \<in> set bl \<and> size_index n = int k"
  using assms unfolding lists_def by blast+

lemma listed_unique:
  assumes l: "layout s bl" and ls: "lists s bl fl" and k: "k < 11" "k' < 11"
    and x: "x \<in> set (fl k)" "x \<in> set (fl k')"
  shows "k = k'"
proof -
  from listsD(3) [OF ls k(1) x(1)] obtain n where n: "(x, n, False) \<in> set bl" "size_index n = int k"
    by auto
  from listsD(3) [OF ls k(2) x(2)] obtain n' where n': "(x, n', False) \<in> set bl" "size_index n' = int k'"
    by auto
  from contig_unique [OF layoutD(4) [OF l] n(1) n'(1)] n n' show ?thesis by simp
qed

lemma lists_apart:
  assumes l: "layout s bl" and ls: "lists s bl fl" and k: "k < 11"
  shows "apart (map adr (fl k))"
proof -
  have inj: "inj_on adr (set (fl k))"
  proof (rule inj_onI)
    fix x y assume x: "x \<in> set (fl k)" and y: "y \<in> set (fl k)" and e: "adr x = adr y"
    from listsD(3) [OF ls k x] listsD(3) [OF ls k y] blocks_apart(1) [OF l] e
    show "x = y" by blast
  qed
  have "distinct (map adr (fl k))"
    using listsD(2) [OF ls k] inj by (simp add: distinct_map)
  moreover have "links (adr x) \<inter> links (adr y) = {}"
    if "x \<in> set (fl k)" "y \<in> set (fl k)" "adr x \<noteq> adr y" for x y
    using listsD(3) [OF ls k that(1)] listsD(3) [OF ls k that(2)] blocks_apart(2) [OF l] that(3)
    by blast
  ultimately show ?thesis by (auto simp: apart_def)
qed

lemma lists_heads_apart:
  assumes l: "layout s bl" and ls: "lists s bl fl" and k: "k < 11" "k' < 11"
  shows "\<forall>y\<in>set (map adr (fl k)). head_slot s (int k') \<notin> links y"
  using listsD(3) [OF ls k(1)] block_links_not_heads [OF l _ k(2)] by auto

lemma listed_in_link_slots:
  assumes ls: "lists s bl fl" and k: "k < 11" and x: "x \<in> set (fl k)"
  shows "links (adr x) \<subseteq> link_slots bl"
  using listsD(3) [OF ls k x] by (auto simp: link_slots_def)

lemma lists_pop:
  assumes l: "layout s bl" and ls: "lists s bl fl" and k: "k < 11" and x: "x \<in> set (fl k)"
  shows "lists (list_pop s (adr x) (int k)) bl (fl(k := remove1 x (fl k)))"
    and "\<And>c. c \<notin> head_slots s \<Longrightarrow> c \<notin> link_slots bl \<Longrightarrow>
           mem (list_pop s (adr x) (int k)) c = mem s c"
proof -
  let ?s = "list_pop s (adr x) (int k)"
  from split_list_first [OF x] obtain ys zs where sp: "fl k = ys @ x # zs" "x \<notin> set ys" by auto
  have rm: "remove1 x (fl k) = ys @ zs" using sp by (simp add: remove1_append)
  have d: "dll s (head s (int k)) (map adr ys @ adr x # map adr zs)"
    using listsD(1) [OF ls k] sp by simp
  have ap: "apart (map adr ys @ adr x # map adr zs)"
    using lists_apart [OF l ls k] sp by simp
  have hs: "\<forall>y\<in>set (map adr ys @ adr x # map adr zs). head_slot s (int k) \<notin> links y"
    using lists_heads_apart [OF l ls k k] sp by simp
  have fr: "mem ?s c = mem s c"
    if "c \<noteq> head_slot s (int k)" "\<forall>y\<in>set (map adr (ys @ zs)). c \<notin> links y" for c
    using list_pop_frame_split [OF d ap hs that(1)] that(2) by simp
  show "mem ?s c = mem s c" if c: "c \<notin> head_slots s" "c \<notin> link_slots bl" for c
  proof (rule fr)
    show "c \<noteq> head_slot s (int k)" using c(1) k by (auto simp: head_slots_def)
    show "\<forall>y\<in>set (map adr (ys @ zs)). c \<notin> links y"
      using c(2) listed_in_link_slots [OF ls k] sp by auto
  qed
  show "lists ?s bl (fl(k := remove1 x (fl k)))"
    unfolding lists_def
  proof (intro allI impI conjI)
    fix j :: nat assume j: "j < 11"
    show "distinct ((fl(k := remove1 x (fl k))) j)"
      using listsD(2) [OF ls j] by auto
    show "\<forall>y\<in>set ((fl(k := remove1 x (fl k))) j). \<exists>n. (y, n, False) \<in> set bl \<and> size_index n = int j"
      using listsD(3) [OF ls j] by (auto dest: notin_set_remove1)
    show "dll ?s (head ?s (int j)) (map adr ((fl(k := remove1 x (fl k))) j))"
    proof (cases "j = k")
      case True
      then show ?thesis
        using list_pop_dll_split [OF d ap hs] rm by simp
    next
      case False
      have hsj: "head_slot s (int j) \<noteq> head_slot s (int k)"
        using head_slots_distinct [OF l j k False] .
      have notk: "\<forall>y\<in>set (map adr (ys @ zs)). c \<notin> links y"
        if "c = head_slot s (int j) \<or> (\<exists>z\<in>set (fl j). c \<in> links (adr z))" for c
      proof
        fix y assume "y \<in> set (map adr (ys @ zs))"
        then obtain w where w: "w \<in> set (fl k)" "y = adr w" using sp by auto
        from listsD(3) [OF ls k w(1)] obtain n where n: "(w, n, False) \<in> set bl" by auto
        show "c \<notin> links y"
          using that
        proof
          assume "c = head_slot s (int j)"
          then show ?thesis using block_links_not_heads [OF l n j] w by simp
        next
          assume "\<exists>z\<in>set (fl j). c \<in> links (adr z)"
          then obtain z where z: "z \<in> set (fl j)" "c \<in> links (adr z)" by auto
          from listsD(3) [OF ls j z(1)] obtain m where m: "(z, m, False) \<in> set bl" by auto
          have "z \<noteq> w" using listed_unique [OF l ls j k z(1)] w(1) False by auto
          from blocks_apart(2) [OF l m n this] z(2) w show ?thesis by auto
        qed
      qed
      have "head ?s (int j) = head s (int j)"
        unfolding head_def head_slot_lists using hsj notk by (intro fr) auto
      moreover have "seg ?s NULL h (map adr (fl j)) NULL = seg s NULL h (map adr (fl j)) NULL" for h
      proof (rule seg_cong)
        fix y assume "y \<in> set (map adr (fl j))"
        then obtain z where z: "z \<in> set (fl j)" "y = adr z" by auto
        from listsD(3) [OF ls j z(1)] obtain m where m: "(z, m, False) \<in> set bl" by auto
        have a: "y + 8 \<noteq> head_slot s (int k)" "y + 16 \<noteq> head_slot s (int k)"
          using block_links_not_heads [OF l m k] z by (auto simp: links_def)
        have "y + 8 \<in> links (adr z)" "y + 16 \<in> links (adr z)" using z by (auto simp: links_def)
        then show "mem ?s (y + 8) = mem s (y + 8) \<and> mem ?s (y + 16) = mem s (y + 16)"
          using a notk z(1) by (intro conjI fr) auto
      qed
      ultimately show ?thesis
        using listsD(1) [OF ls j] False by (simp add: dll_def)
    qed
  qed
qed

lemma dll_other_list:
  assumes l: "layout s bl" and ls: "lists s bl fl" and j: "j < 11" and k: "k < 11" and jk: "j \<noteq> k"
    and g: "segListHead s' = segListHead s"
    and fr: "\<And>c. c \<noteq> head_slot s (int k) \<Longrightarrow> \<forall>w\<in>W. c \<notin> links (adr w) \<Longrightarrow> mem s' c = mem s c"
    and W: "\<forall>w\<in>W. (\<exists>n al. (w, n, al) \<in> set bl) \<and> w \<notin> set (fl j)"
  shows "dll s' (head s' (int j)) (map adr (fl j))"
proof -
  have hsj: "head_slot s (int j) \<noteq> head_slot s (int k)"
    using head_slots_distinct [OF l j k jk] .
  have hW: "\<forall>w\<in>W. head_slot s (int j) \<notin> links (adr w)"
    using W block_links_not_heads [OF l _ j] by blast
  have "head_slot s' (int j) = head_slot s (int j)" using g by (simp add: head_slot_def)
  then have "head s' (int j) = head s (int j)"
    unfolding head_def using hsj hW by (simp add: fr)
  moreover have "seg s' NULL h (map adr (fl j)) NULL = seg s NULL h (map adr (fl j)) NULL" for h
  proof (rule seg_cong)
    fix y assume "y \<in> set (map adr (fl j))"
    then obtain z where z: "z \<in> set (fl j)" "y = adr z" by auto
    from listsD(3) [OF ls j z(1)] obtain m where m: "(z, m, False) \<in> set bl" by auto
    have a: "y + 8 \<noteq> head_slot s (int k)" "y + 16 \<noteq> head_slot s (int k)"
      using block_links_not_heads [OF l m k] z by (auto simp: links_def)
    have b: "\<forall>w\<in>W. y + 8 \<notin> links (adr w) \<and> y + 16 \<notin> links (adr w)"
    proof
      fix w assume w: "w \<in> W"
      with W obtain n al where n: "(w, n, al) \<in> set bl" and "w \<notin> set (fl j)" by blast
      then have "z \<noteq> w" using z by auto
      from blocks_apart(2) [OF l m n this] z
      show "y + 8 \<notin> links (adr w) \<and> y + 16 \<notin> links (adr w)" by (auto simp: links_def)
    qed
    show "mem s' (y + 8) = mem s (y + 8) \<and> mem s' (y + 16) = mem s (y + 16)"
      using a b by (intro conjI fr) auto
  qed
  ultimately show ?thesis using listsD(1) [OF ls j] by (simp add: dll_def)
qed

lemma block_adr_nonnull:
  assumes "layout s bl" "(x, n, al) \<in> set bl"
  shows "adr x \<noteq> NULL"
proof -
  note g = layout_geom [OF assms]
  then have "adr x \<noteq> adr 0" by (simp add: adr_inj)
  then show ?thesis by (simp add: adr_0)
qed

lemma lists_push:
  assumes l: "layout s bl" and ls: "lists s bl fl" and k: "k < 11"
    and x: "(x, n, False) \<in> set bl" "size_index n = int k" and notin: "x \<notin> set (fl k)"
  shows "lists (list_push s (adr x) (int k)) bl (fl(k := x # fl k))"
    and "\<And>c. c \<notin> head_slots s \<Longrightarrow> c \<notin> link_slots bl \<Longrightarrow>
           mem (list_push s (adr x) (int k)) c = mem s c"
proof -
  let ?s = "list_push s (adr x) (int k)"
  have d: "dll s (head s (int k)) (map adr (fl k))" using listsD(1) [OF ls k] .
  have xn: "adr x \<notin> set (map adr (fl k))"
  proof
    assume "adr x \<in> set (map adr (fl k))"
    then obtain y where y: "y \<in> set (fl k)" "adr x = adr y" by auto
    from listsD(3) [OF ls k y(1)] obtain m where "(y, m, False) \<in> set bl" by auto
    from blocks_apart(1) [OF l x(1) this] y notin show False by auto
  qed
  have xl: "links (adr x) \<inter> links (adr y) = {}" if "y \<in> set (fl k)" for y
  proof -
    from listsD(3) [OF ls k that] obtain m where "(y, m, False) \<in> set bl" by auto
    from blocks_apart(2) [OF l x(1) this] that notin show ?thesis by auto
  qed
  have ap: "apart (adr x # map adr (fl k))"
    using lists_apart [OF l ls k] xn xl by (auto simp: apart_def)
  have hs: "\<forall>y\<in>set (adr x # map adr (fl k)). head_slot s (int k) \<notin> links y"
    using lists_heads_apart [OF l ls k k] block_links_not_heads [OF l x(1) k] by simp
  have nn: "adr x \<noteq> NULL" using block_adr_nonnull [OF l x(1)] .
  have hd: "head s (int k) \<noteq> NULL \<Longrightarrow> \<exists>y\<in>set (fl k). head s (int k) = adr y"
    using d by (cases "fl k") (auto simp: dll_def)
  have fr: "mem ?s c = mem s c"
    if "c \<noteq> head_slot s (int k)" "\<forall>w\<in>insert x (set (fl k)). c \<notin> links (adr w)" for c
  proof (rule list_push_frame)
    show "c \<noteq> head_slot s (int k)" by fact
    show "c \<notin> links (adr x)" using that(2) by simp
    show "head_slot s (int k) \<notin> links (adr x)" using hs by simp
    show "head s (int k) \<noteq> NULL \<longrightarrow> c \<noteq> head s (int k) + 16"
      using hd that(2) by (auto simp: links_def)
  qed
  show "mem ?s c = mem s c" if c: "c \<notin> head_slots s" "c \<notin> link_slots bl" for c
  proof (rule fr)
    show "c \<noteq> head_slot s (int k)" using c(1) k by (auto simp: head_slots_def)
    have lx: "links (adr x) \<subseteq> link_slots bl" using x(1) by (auto simp: link_slots_def)
    show "\<forall>w\<in>insert x (set (fl k)). c \<notin> links (adr w)"
    proof
      fix w assume "w \<in> insert x (set (fl k))"
      then have "links (adr w) \<subseteq> link_slots bl"
        using lx listed_in_link_slots [OF ls k] by (cases "w = x") simp_all
      then show "c \<notin> links (adr w)" using c(2) by (rule contra_subsetD)
    qed
  qed
  show "lists ?s bl (fl(k := x # fl k))"
    unfolding lists_def
  proof (intro allI impI conjI)
    fix j :: nat assume j: "j < 11"
    show "distinct ((fl(k := x # fl k)) j)"
      using listsD(2) [OF ls j] notin by auto
    show "\<forall>y\<in>set ((fl(k := x # fl k)) j). \<exists>n. (y, n, False) \<in> set bl \<and> size_index n = int j"
      using listsD(3) [OF ls j] x by auto
    show "dll ?s (head ?s (int j)) (map adr ((fl(k := x # fl k)) j))"
    proof (cases "j = k")
      case True
      then show ?thesis using list_push_dll [OF d ap nn hs] by simp
    next
      case False
      have W: "\<forall>w\<in>insert x (set (fl k)). (\<exists>n al. (w, n, al) \<in> set bl) \<and> w \<notin> set (fl j)"
      proof
        fix w assume w: "w \<in> insert x (set (fl k))"
        show "(\<exists>n al. (w, n, al) \<in> set bl) \<and> w \<notin> set (fl j)"
        proof (cases "w = x")
          case True
          have "x \<notin> set (fl j)"
          proof
            assume "x \<in> set (fl j)"
            from listsD(3) [OF ls j this] obtain m where m: "(x, m, False) \<in> set bl" "size_index m = int j"
              by auto
            from contig_unique [OF layoutD(4) [OF l] x(1) m(1)] x(2) m(2) False show False by simp
          qed
          then show ?thesis using True x(1) by auto
        next
          case wx: False
          then have wk: "w \<in> set (fl k)" using w by simp
          then show ?thesis
            using listsD(3) [OF ls k wk] listed_unique [OF l ls j k _ wk] False by auto
        qed
      qed
      have g: "segListHead ?s = segListHead s" by simp
      have "dll ?s (head ?s (int j)) (map adr (fl j))"
        by (rule dll_other_list [where W = "insert x (set (fl k))", OF l ls j k False g _ W])
          (rule fr)
      then show ?thesis using False by simp
    qed
  qed
qed

section \<open>Placement\<close>

lemma contig_mid_bounds:
  assumes "contig a pre lo" "contig lo mid hi" "contig hi post e"
  shows "\<And>b n al. (b, n, al) \<in> set pre \<Longrightarrow> a \<le> b \<and> b + n \<le> lo"
    and "\<And>b n al. (b, n, al) \<in> set post \<Longrightarrow> hi \<le> b \<and> b + n \<le> e"
    and "a \<le> lo" "lo \<le> hi" "hi \<le> e"
  using assms contig_bounds contig_le by blast+

lemma layout_split:
  assumes l: "layout s (pre @ mid @ post)"
  obtains lo hi where "contig (unat (prologue s) + 8) pre lo" "contig lo mid hi"
    "contig hi post (unat (mem_brk s) - 8)"
  using layoutD(4) [OF l] by (auto simp: contig_append)

lemma lists_local:
  assumes l: "layout s bl" and ls: "lists s bl fl"
    and bl: "bl = pre @ mid @ post"
    and c: "contig (unat (prologue s) + 8) pre lo" "contig lo mid hi"
      "contig hi post (unat (mem_brk s) - 8)"
    and un: "\<And>b n al k. (b, n, al) \<in> set mid \<Longrightarrow> k < 11 \<Longrightarrow> b \<notin> set (fl k)"
    and g: "segListHead s' = segListHead s"
    and fr: "\<And>j. j < lo \<or> hi \<le> j \<Longrightarrow> j < 2 ^ 64 \<Longrightarrow> mem s' (adr j) = mem s (adr j)"
  shows "lists s' (pre @ mid' @ post) fl"
  unfolding lists_def
proof (intro allI impI conjI)
  fix k :: nat assume k: "k < 11"
  note P = layoutD(1-3) [OF l]
  note cb = contig_mid_bounds [OF c]
  have B: "unat (mem_brk s) < 2 ^ 64" using unsigned_less [of "mem_brk s"] by simp
  show "distinct (fl k)" using listsD(2) [OF ls k] .
  have where_: "(x, n, False) \<in> set pre \<or> (x, n, False) \<in> set post"
    if "x \<in> set (fl k)" "(x, n, False) \<in> set bl" for x n
    using that un [of x n False k] k bl by auto
  show "\<forall>x\<in>set (fl k). \<exists>n. (x, n, False) \<in> set (pre @ mid' @ post) \<and> size_index n = int k"
  proof
    fix x assume x: "x \<in> set (fl k)"
    from listsD(3) [OF ls k x] obtain n where n: "(x, n, False) \<in> set bl" "size_index n = int k"
      by auto
    with where_ [OF x n(1)] show "\<exists>n. (x, n, False) \<in> set (pre @ mid' @ post) \<and> size_index n = int k"
      by auto
  qed
  have "head_slot s' (int k) = head_slot s (int k)" using g by (simp add: head_slot_def)
  moreover have "mem s' (head_slot s (int k)) = mem s (head_slot s (int k))"
    unfolding head_slot_adr using k P cb B by (intro fr) auto
  ultimately have "head s' (int k) = head s (int k)" by (simp add: head_def)
  moreover have "seg s' NULL h (map adr (fl k)) NULL = seg s NULL h (map adr (fl k)) NULL" for h
  proof (rule seg_cong)
    fix y assume "y \<in> set (map adr (fl k))"
    then obtain x where x: "x \<in> set (fl k)" "y = adr x" by auto
    from listsD(3) [OF ls k x(1)] obtain n where n: "(x, n, False) \<in> set bl" by auto
    note gx = layout_geom [OF l n]
    from where_ [OF x(1) n] cb(1) [of x n False] cb(2) [of x n False] gx
    have "x + 16 < lo \<or> hi \<le> x" by auto
    then show "mem s' (y + 8) = mem s (y + 8) \<and> mem s' (y + 16) = mem s (y + 16)"
      unfolding x(2) adr_add using gx by (intro conjI fr) auto
  qed
  ultimately show "dll s' (head s' (int k)) (map adr (fl k))"
    using listsD(1) [OF ls k] by (simp add: dll_def)
qed

lemma layout_local:
  assumes l: "layout s (pre @ mid @ post)"
    and c: "contig (unat (prologue s) + 8) pre lo" "contig lo mid hi"
      "contig hi post (unat (mem_brk s) - 8)"
    and g: "segListHead s' = segListHead s" "prologue s' = prologue s" "mem_brk s' = mem_brk s"
    and fr: "\<And>j. j < lo \<or> hi \<le> j \<Longrightarrow> j < 2 ^ 64 \<Longrightarrow> mem s' (adr j) = mem s (adr j)"
    and c': "contig lo mid' hi" and t': "list_all (tags s') mid'"
  shows "layout s' (pre @ mid' @ post)"
proof -
  note P = layoutD(1-3) [OF l]
  note cb = contig_mid_bounds [OF c]
  have B: "unat (mem_brk s) < 2 ^ 64" using unsigned_less [of "mem_brk s"] by simp
  have t: "tags s' x = tags s x" if "x \<in> set pre \<or> x \<in> set post" for x
  proof -
    obtain b n al where x: "x = (b, n, al)" by (cases x)
    have m: "(b, n, al) \<in> set (pre @ mid @ post)" using that x by auto
    note gx = layout_geom [OF l m]
    have "b + n \<le> lo \<or> hi \<le> b" using that x cb(1) [of b n al] cb(2) [of b n al] by auto
    then show ?thesis unfolding x using gx by (intro tags_cong fr) auto
  qed
  have "list_all (tags s) pre" "list_all (tags s) post" using layoutD(9) [OF l] by simp_all
  then have tp: "list_all (tags s') pre" "list_all (tags s') post"
    using t by (simp_all add: list_all_iff)
  have "mem s' (adr (unat (prologue s))) = mem s (adr (unat (prologue s)))"
    "mem s' (adr (unat (mem_brk s) - 8)) = mem s (adr (unat (mem_brk s) - 8))"
    using cb P B by (auto intro!: fr)
  then have sent: "block_size s' (prologue s) = 8" "allocated s' (prologue s)"
    "block_size s' (adr (unat (mem_brk s) - 8)) = 0" "allocated s' (adr (unat (mem_brk s) - 8))"
    using layoutD(5-8) [OF l] by (simp_all add: block_size_def allocated_def)
  have "contig (unat (prologue s) + 8) (pre @ mid' @ post) (unat (mem_brk s) - 8)"
    using c c' by (auto simp: contig_append)
  then show ?thesis
    using P g sent tp t' by (intro layoutI) simp_all
qed

lemma size_index_range:
  assumes "32 \<le> n" "n < 2 ^ 32"
  shows "0 \<le> size_index n" "size_index n \<le> 10"
proof -
  have u: "unat (word_of_nat n :: 32 word) = n" using assms by (simp add: unat_of_nat)
  show "0 \<le> size_index n" "size_index n \<le> 10"
    using floorlog_ge6 [of n] assms(1)
    by (simp_all add: size_index_def segListIndex_def logBaseTwo_floorlog u TOTALNUMLIST_def Let_def)
qed

lemma split_size_unat:
  assumes "m \<le> n" "n < 2 ^ 64"
  shows "unat ((word_of_nat n :: 64 word) - word_of_nat m) = n - m"
proof -
  have "(word_of_nat n :: 64 word) - word_of_nat m = word_of_nat (n - m)" using assms by simp
  then show ?thesis using assms by (simp only: unat_of_nat) simp
qed

lemma split_size_le:
  assumes "m \<le> n" "n < 2 ^ 64"
  shows "(32 \<le> (word_of_nat n :: 64 word) - word_of_nat m) = (32 \<le> n - m)"
  using split_size_unat [OF assms] by (simp add: word_le_nat_alt)

lemma unat64_of_nat: "r < 2 ^ 64 \<Longrightarrow> unat (word_of_nat r :: 64 word) = r"
  by (simp add: unat_of_nat)

lemma place_split_exec:
  assumes bs: "block_size s (adr b) = n" "block_size (list_pop s (adr b) (size_index n)) (adr b) = n"
    and n: "n < 2 ^ 31" "32 \<le> asz" "asz \<le> n" "32 \<le> n - asz" and b: "b + n < 2 ^ 64"
  shows "place s (adr b) (word_of_nat asz) =
    list_push
     (set_allocated (set_block_size
       (set_allocated (set_block_size
         (set_allocated (set_block_size
           (set_allocated (set_block_size (list_pop s (adr b) (size_index n)) (adr b) asz)
              (adr b) True)
           (adr (b + asz - 8)) asz) (adr (b + asz - 8)) True)
         (adr (b + asz)) (n - asz)) (adr (b + asz)) False)
       (adr (b + n - 8)) (n - asz)) (adr (b + n - 8)) False)
     (adr (b + asz)) (size_index (n - asz))"
proof -
  have r: "n - asz < 2 ^ 64" "asz < 2 ^ 31" "n - asz < 2 ^ 31" "asz < 2 ^ 64" using n by simp_all
  have e1: "adr (b + asz) \<noteq> adr (b + n - 8)" using n b by (simp add: adr_inj)
  have e2: "adr (b + asz) - 8 = adr (b + asz - 8)" using n by (simp add: adr_sub)
  have e3: "adr (b + asz) + (word_of_nat n - word_of_nat asz) - 8 = adr (b + n - 8)"
    using n by (simp add: adr_def)
  have e4: "adr b \<noteq> adr (b + asz - 8)" using n b by (simp add: adr_inj)
  show ?thesis
    using n r e1 e4
    by (simp add: place_def bs split_size_unat split_size_le unat64_of_nat get_footer_def
        adr_add e2 e3 Let_def cong: let_weak_cong)
qed

lemma size_class_less:
  assumes "32 \<le> n" "n < 2 ^ 31"
  shows "size_class n < 11" "int (size_class n) = size_index n"
  using size_index_range [of n] assms by (simp_all add: size_class_def)

lemma place_whole_exec:
  assumes bs: "block_size s (adr b) = n" "block_size (list_pop s (adr b) (size_index n)) (adr b) = n"
    and n: "n < 2 ^ 31" "asz \<le> n" "\<not> 32 \<le> n - asz" and b: "b + n < 2 ^ 64" "8 \<le> n"
  shows "place s (adr b) (word_of_nat asz) =
     set_allocated (set_allocated (list_pop s (adr b) (size_index n)) (adr b) True)
       (adr (b + n - 8)) True"
proof -
  have e: "adr (b + n) - 8 = adr (b + n - 8)" using b by (simp add: adr_sub)
  show ?thesis
    using n b
    by (simp add: place_def bs split_size_le get_footer_def adr_add e Let_def cong: let_weak_cong)
qed

lemma head_slots_globals:
  "segListHead s' = segListHead s \<Longrightarrow> head_slots s' = head_slots s"
  by (simp add: head_slots_def head_slot_def)

lemma pop_keeps_layout:
  assumes l: "layout s bl" and ls: "lists s bl fl" and k: "k < 11" and x: "x \<in> set (fl k)"
  shows "layout (list_pop s (adr x) (int k)) bl"
  by (rule layout_frame [OF l]) (simp_all add: lists_pop(2) [OF l ls k x])

lemma push_keeps_layout:
  assumes l: "layout s bl" and ls: "lists s bl fl" and k: "k < 11"
    and x: "(x, n, False) \<in> set bl" "size_index n = int k" and notin: "x \<notin> set (fl k)"
  shows "layout (list_push s (adr x) (int k)) bl"
  by (rule layout_frame [OF l]) (simp_all add: lists_push(2) [OF l ls k x notin])

lemma layout_block_tags:
  assumes "layout s bl" "(b, n, al) \<in> set bl"
  shows "block_size s (adr b) = n" "allocated s (adr b) = al"
    "block_size s (adr (b + n - 8)) = n" "allocated s (adr (b + n - 8)) = al"
  using layoutD(9) [OF assms(1)] assms(2) by (auto simp: list_all_iff tags_def)

lemma not_listed_inside:
  assumes l: "layout s bl" and ls: "lists s bl fl" and m: "(b, n, al) \<in> set bl"
    and k: "k < 11" and j: "b < j" "j < b + n"
  shows "j \<notin> set (fl k)"
proof
  assume "j \<in> set (fl k)"
  from listsD(3) [OF ls k this] obtain m' where m': "(j, m', False) \<in> set bl" by auto
  from contig_disjoint [OF layoutD(4) [OF l] m m'] layout_geom(3) [OF l m'] j
  show False by auto
qed

lemma place_split_refines:
  assumes l: "layout s (pre @ (b, n, False) # post)"
    and ls: "lists s (pre @ (b, n, False) # post) fl"
    and on: "b \<in> set (fl (size_class n))"
    and a: "32 \<le> asz" "8 dvd asz" "asz \<le> n" and r: "32 \<le> n - asz"
  defines "bl' \<equiv> pre @ [(b, asz, True), (b + asz, n - asz, False)] @ post"
    and "fl1 \<equiv> fl(size_class n := remove1 b (fl (size_class n)))"
  shows "layout (place s (adr b) (word_of_nat asz)) bl'"
    and "lists (place s (adr b) (word_of_nat asz)) bl'
           (fl1(size_class (n - asz) := (b + asz) # fl1 (size_class (n - asz))))"
proof -
  let ?bl = "pre @ (b, n, False) # post"
  let ?k = "size_class n" and ?r = "n - asz" 
  have m: "(b, n, False) \<in> set ?bl" by simp
  note g = layout_geom [OF l m]
  note k = size_class_less [OF g(3) g(6)]
  define s1 where "s1 = list_pop s (adr b) (size_index n)"
  have s1: "s1 = list_pop s (adr b) (int ?k)" by (simp add: s1_def k)
  have l1: "layout s1 ?bl" unfolding s1 by (rule pop_keeps_layout [OF l ls k(1) on])
  have ls1: "lists s1 ?bl fl1" unfolding s1 fl1_def by (rule lists_pop(1) [OF l ls k(1) on])
  have gl1: "segListHead s1 = segListHead s" "prologue s1 = prologue s" "mem_brk s1 = mem_brk s"
    by (simp_all add: s1_def)
  define s9 where "s9 = set_allocated (set_block_size
       (set_allocated (set_block_size
         (set_allocated (set_block_size
           (set_allocated (set_block_size s1 (adr b) asz)
              (adr b) True)
           (adr (b + asz - 8)) asz) (adr (b + asz - 8)) True)
         (adr (b + asz)) (n - asz)) (adr (b + asz)) False)
       (adr (b + n - 8)) (n - asz)) (adr (b + n - 8)) False"
  have ex: "place s (adr b) (word_of_nat asz) = list_push s9 (adr (b + asz)) (size_index ?r)"
    unfolding s9_def s1_def
    by (rule place_split_exec [OF layout_block_tags(1) [OF l m]
          layout_block_tags(1) [OF l1 [unfolded s1_def] m] g(6) a(1,3) r g(5)])
  have gl9: "segListHead s9 = segListHead s1" "prologue s9 = prologue s1" "mem_brk s9 = mem_brk s1"
    by (simp_all add: s9_def)
  obtain lo hi where c: "contig (unat (prologue s1) + 8) pre lo" "contig lo [(b, n, False)] hi"
      "contig hi post (unat (mem_brk s1) - 8)"
    using layout_split [of s1 pre "[(b, n, False)]" post] l1 by auto
  then have lohi: "lo = b" "hi = b + n" by auto
  have fr: "mem s9 (adr j) = mem s1 (adr j)" if "j < lo \<or> hi \<le> j" "j < 2 ^ 64" for j
  proof -
    have "adr j \<noteq> adr b" "adr j \<noteq> adr (b + asz - 8)" "adr j \<noteq> adr (b + asz)"
      "adr j \<noteq> adr (b + n - 8)"
      using that lohi g a r by (auto simp: adr_inj)
    then show ?thesis by (simp add: s9_def tag_writes_mem)
  qed
  have d: "adr b \<noteq> adr (b + asz - 8)" "adr b \<noteq> adr (b + asz)" "adr b \<noteq> adr (b + n - 8)"
    "adr (b + asz - 8) \<noteq> adr (b + asz)" "adr (b + asz - 8) \<noteq> adr (b + n - 8)"
    "adr (b + asz) \<noteq> adr (b + n - 8)"
    using g a r by (simp_all add: adr_inj)
  have lt: "asz < 2 ^ 31" "n - asz < 2 ^ 31" using g a by simp_all
  have e: "b + asz + (n - asz) - 8 = b + n - 8" using a by simp
  have t': "list_all (tags s9) [(b, asz, True), (b + asz, n - asz, False)]"
    using d d [THEN not_sym] lt by (simp add: tags_def s9_def e)
  have c': "contig lo [(b, asz, True), (b + asz, n - asz, False)] hi"
    using lohi a r g by (simp add: dvd_diff_nat)
  have un: "x \<notin> set (fl1 j)" if "(x, n', al) \<in> set [(b, n, False)]" "j < 11" for x n' al j
  proof -
    have x: "x = b" using that by simp
    show ?thesis
    proof (cases "j = ?k")
      case True
      then show ?thesis using listsD(2) [OF ls k(1)] x by (simp add: fl1_def)
    next
      case False
      then show ?thesis
        using listed_unique [OF l ls that(2) k(1) _ on] x by (auto simp: fl1_def)
    qed
  qed
  have l1': "layout s1 (pre @ [(b, n, False)] @ post)" using l1 by simp
  have bl: "?bl = pre @ [(b, n, False)] @ post" by simp
  have l9: "layout s9 bl'"
    unfolding bl'_def
    by (rule layout_local [OF l1' c gl9 fr c' t'])
  have ls9: "lists s9 bl' fl1"
    unfolding bl'_def
    by (rule lists_local [OF l1 ls1 bl c un gl9(1) fr])
  have m': "(b + asz, ?r, False) \<in> set bl'" by (simp add: bl'_def)
  note g' = layout_geom [OF l9 m']
  note k' = size_class_less [OF g'(3) g'(6)]
  have notin: "b + asz \<notin> set (fl1 (size_class ?r))"
    using not_listed_inside [OF l1 ls1 m k'(1), of "b + asz"] a r by simp
  show "layout (place s (adr b) (word_of_nat asz)) bl'"
    unfolding ex k'(2) [symmetric]
    by (rule push_keeps_layout [OF l9 ls9 k'(1) m' k'(2) [symmetric] notin])
  show "lists (place s (adr b) (word_of_nat asz)) bl'
           (fl1(size_class (n - asz) := (b + asz) # fl1 (size_class (n - asz))))"
    unfolding ex k'(2) [symmetric]
    by (rule lists_push(1) [OF l9 ls9 k'(1) m' k'(2) [symmetric] notin])
qed

lemma place_whole_refines:
  assumes l: "layout s (pre @ (b, n, False) # post)"
    and ls: "lists s (pre @ (b, n, False) # post) fl"
    and on: "b \<in> set (fl (size_class n))"
    and a: "asz \<le> n" and r: "n - asz < 32"
  defines "bl' \<equiv> pre @ [(b, n, True)] @ post"
    and "fl1 \<equiv> fl(size_class n := remove1 b (fl (size_class n)))"
  shows "layout (place s (adr b) (word_of_nat asz)) bl'"
    and "lists (place s (adr b) (word_of_nat asz)) bl' fl1"
proof -
  let ?bl = "pre @ (b, n, False) # post"
  let ?k = "size_class n"
  have m: "(b, n, False) \<in> set ?bl" by simp
  note g = layout_geom [OF l m]
  note k = size_class_less [OF g(3) g(6)]
  define s1 where "s1 = list_pop s (adr b) (size_index n)"
  have s1: "s1 = list_pop s (adr b) (int ?k)" by (simp add: s1_def k)
  have l1: "layout s1 ?bl" unfolding s1 by (rule pop_keeps_layout [OF l ls k(1) on])
  have ls1: "lists s1 ?bl fl1" unfolding s1 fl1_def by (rule lists_pop(1) [OF l ls k(1) on])
  define s3 where "s3 = set_allocated (set_allocated s1 (adr b) True) (adr (b + n - 8)) True"
  have n8: "8 \<le> n" "\<not> 32 \<le> n - asz" using g r by simp_all
  have ex: "place s (adr b) (word_of_nat asz) = s3"
    unfolding s3_def s1_def
    by (rule place_whole_exec [OF layout_block_tags(1) [OF l m]
          layout_block_tags(1) [OF l1 [unfolded s1_def] m] g(6) a n8(2) g(5) n8(1)])
  have gl3: "segListHead s3 = segListHead s1" "prologue s3 = prologue s1" "mem_brk s3 = mem_brk s1"
    by (simp_all add: s3_def)
  obtain lo hi where c: "contig (unat (prologue s1) + 8) pre lo" "contig lo [(b, n, False)] hi"
      "contig hi post (unat (mem_brk s1) - 8)"
    using layout_split [of s1 pre "[(b, n, False)]" post] l1 by auto
  then have lohi: "lo = b" "hi = b + n" by auto
  have fr: "mem s3 (adr j) = mem s1 (adr j)" if "j < lo \<or> hi \<le> j" "j < 2 ^ 64" for j
  proof -
    have "adr j \<noteq> adr b" "adr j \<noteq> adr (b + n - 8)"
      using that lohi g by (auto simp: adr_inj)
    then show ?thesis by (simp add: s3_def tag_writes_mem)
  qed
  have t': "list_all (tags s3) [(b, n, True)]"
    using layout_block_tags [OF l1 m] by (simp add: tags_def s3_def)
  have c': "contig lo [(b, n, True)] hi" using c(2) by simp
  have un: "x \<notin> set (fl1 j)" if "(x, n', al) \<in> set [(b, n, False)]" "j < 11" for x n' al j
  proof -
    have x: "x = b" using that by simp
    show ?thesis
    proof (cases "j = ?k")
      case True
      then show ?thesis using listsD(2) [OF ls k(1)] x by (simp add: fl1_def)
    next
      case False
      then show ?thesis
        using listed_unique [OF l ls that(2) k(1) _ on] x by (auto simp: fl1_def)
    qed
  qed
  have l1': "layout s1 (pre @ [(b, n, False)] @ post)" using l1 by simp
  have bl: "?bl = pre @ [(b, n, False)] @ post" by simp
  show "layout (place s (adr b) (word_of_nat asz)) bl'"
    unfolding bl'_def ex by (rule layout_local [OF l1' c gl3 fr c' t'])
  show "lists (place s (adr b) (word_of_nat asz)) bl' fl1"
    unfolding bl'_def ex by (rule lists_local [OF l1 ls1 bl c un gl3(1) fr])
qed

text \<open>
  C3. Let \<open>b\<close> be a free block of size \<open>n\<close> on the list of its class, in a heap whose tags and
  free lists are in order, and \<open>asize\<close> a block size (a multiple of 8, at least 32) with
  \<open>asize \<le> n\<close>. If \<open>n - asize \<ge> 32\<close>, \<open>place\<close> takes \<open>b\<close> off its list, makes it an allocated
  block of size \<open>asize\<close> (header and footer) followed by a free block of size \<open>n - asize\<close>
  (header and footer), and puts that block at the head of the list of its class. Otherwise
  \<open>place\<close> takes \<open>b\<close> off its list and marks it allocated at its full size. Nothing else in
  the heap or the lists changes.
\<close>

theorem place_refines:
  assumes "layout s (pre @ (b, n, False) # post)"
    and "lists s (pre @ (b, n, False) # post) fl"
    and "b \<in> set (fl (size_class n))"
    and "32 \<le> asize" "8 dvd asize" "asize \<le> n"
  shows "(32 \<le> n - asize \<longrightarrow>
           (let s' = place s (adr b) (word_of_nat asize);
                bl' = pre @ [(b, asize, True), (b + asize, n - asize, False)] @ post;
                fl1 = fl(size_class n := remove1 b (fl (size_class n)));
                fl' = fl1(size_class (n - asize) := (b + asize) # fl1 (size_class (n - asize)))
            in layout s' bl' \<and> lists s' bl' fl'))
       \<and> (n - asize < 32 \<longrightarrow>
           (let s' = place s (adr b) (word_of_nat asize);
                bl' = pre @ [(b, n, True)] @ post;
                fl' = fl(size_class n := remove1 b (fl (size_class n)))
            in layout s' bl' \<and> lists s' bl' fl'))"
  using place_split_refines [OF assms] place_whole_refines [OF assms(1-3) assms(6)]
  unfolding Let_def by blast

section \<open>Placement on concrete heaps\<close>

lemma all_less_11:
  "(\<forall>k<11. P k) \<longleftrightarrow> P 0 \<and> P 1 \<and> P 2 \<and> P 3 \<and> P 4 \<and> P 5 \<and> P 6 \<and> P 7 \<and> P 8 \<and> P 9 \<and> P (10::nat)"
proof -
  have "{..<11} = {0, 1, 2, 3, 4, 5, 6, 7, 8, 9, 10::nat}" by (auto simp: less_Suc_eq numeral_eq_Suc)
  then have "(\<forall>k\<in>{..<11}. P k) \<longleftrightarrow> (\<forall>k\<in>{0, 1, 2, 3, 4, 5, 6, 7, 8, 9, 10::nat}. P k)" by simp
  moreover have "(\<forall>k<11. P k) \<longleftrightarrow> (\<forall>k\<in>{..<11}. P k)" by auto
  ultimately show ?thesis by simp
qed

lemma adr_numeral [simp]: "adr (numeral k) = numeral k"
  by (simp add: adr_def)

lemma full_heap_layout: "layout full_heap [(4192, 65520, False)]"
  by (simp add: layout_def full_heap_eq tags_def block_size_def allocated_def slot_eval)

lemma full_heap_lists: "lists full_heap [(4192, 65520, False)] full_lists"
  by (simp add: lists_def all_less_11 full_lists_def dll_def full_heap_eq head_def head_slot_def
      body_next_def body_prev_def NULL_def size_index_init)

lemma extended_heap_eq:
  "extended_heap =
     \<lparr>mem =
         (\<lambda>_. 0)
         (4104 := 0, 4112 := 0, 4120 := 0, 4128 := 0, 4136 := 0, 4144 := 0,
            4152 := 0, 4160 := 0, 4168 := 0, 4184 := 17, 4192 := 131040,
            4200 := 0, 4208 := 0, 69704 := 131040, 4176 := 4192, 69712 := 64,
            69736 := 64, 69744 := 1, 4096 := 69712, 69728 := 0, 69720 := 0),
         segListHead = 4096, prologue = 4184, mem_brk = 69752,
         mem_grant = \<lambda>b n. unat b + n \<le> 200000\<rparr>"
  by (simp add: extended_heap_def roomy_extend)

lemma extended_heap_layout: "layout extended_heap [(4192, 65520, False), (69712, 32, False)]"
  by (simp add: layout_def extended_heap_eq tags_def block_size_def allocated_def slot_eval)

lemma extended_heap_lists:
  "lists extended_heap [(4192, 65520, False), (69712, 32, False)] extended_lists"
  by (simp add: lists_def all_less_11 extended_lists_def dll_def extended_heap_eq head_def
      head_slot_def body_next_def body_prev_def NULL_def size_index_init size_index_32)

theorem place_refines_witness:
  "layout full_heap ([] @ (4192, 65520, False) # [])
   \<and> lists full_heap ([] @ (4192, 65520, False) # []) full_lists
   \<and> 4192 \<in> set (full_lists (size_class 65520))
   \<and> 32 \<le> (32::nat) \<and> (8::nat) dvd 32 \<and> (32::nat) \<le> 65520 \<and> (32::nat) \<le> 65520 - 32
   \<and> layout (place full_heap (adr 4192) (word_of_nat 32))
         ([] @ [(4192, 32, True), (4192 + 32, 65520 - 32, False)] @ [])
   \<and> layout extended_heap ([(4192, 65520, False)] @ (69712, 32, False) # [])
   \<and> lists extended_heap ([(4192, 65520, False)] @ (69712, 32, False) # []) extended_lists
   \<and> 69712 \<in> set (extended_lists (size_class 32)) \<and> (32::nat) - 32 < 32
   \<and> layout (place extended_heap (adr 69712) (word_of_nat 32))
         ([(4192, 65520, False)] @ [(69712, 32, True)] @ [])"
proof -
  have a: "layout full_heap ([] @ (4192, 65520, False) # [])"
    and b: "lists full_heap ([] @ (4192, 65520, False) # []) full_lists"
    and c: "4192 \<in> set (full_lists (size_class 65520))"
    using full_heap_layout full_heap_lists
    by (simp_all add: full_lists_def size_class_def size_index_init)
  have d: "layout extended_heap ([(4192, 65520, False)] @ (69712, 32, False) # [])"
    and e: "lists extended_heap ([(4192, 65520, False)] @ (69712, 32, False) # []) extended_lists"
    and f: "69712 \<in> set (extended_lists (size_class 32))"
    using extended_heap_layout extended_heap_lists
    by (simp_all add: extended_lists_def size_class_def size_index_32)
  have n: "32 \<le> (32::nat)" "(8::nat) dvd 32" "(32::nat) \<le> 65520" "(32::nat) \<le> 32" by simp_all
  from place_refines [OF a b c n(1,2,3)] place_refines [OF d e f n(1,2,4)] a b c d e f
  show ?thesis by (simp add: Let_def)
qed

section \<open>Coalescing\<close>
































section \<open>The four cases of \<open>coalesce\<close>\<close>

lemma alloc_bytes_free [simp]:
  "alloc_bytes (pre @ (x, m, False) # post) = alloc_bytes (pre @ post)"
  by (simp add: alloc_bytes_def)







end
